theory Spec2Isabelle
  imports Main
begin

section \<open>Python values used by \<open>fuzzy.py\<close>\<close>

text \<open>
  The exceptions the module can raise. A raising call is modelled as \<open>Inl e\<close>,
  a returning call as \<open>Inr v\<close>.
\<close>

datatype error = ValueError | IndexError | KeyError | ZeroDivisionError

text \<open>
  A spaCy token as far as the module reads it: its text, the whitespace that follows
  it in the source string, and the three flags behind the ignore rules.
\<close>

record token =
  tok_text :: string
  whitespace :: string
  is_space :: bool
  is_punct :: bool
  is_stop :: bool

type_synonym doc = "token list"

text \<open>A similarity function, \<open>(str, str) \<rightarrow> int\<close>.\<close>

type_synonym alg = "string \<Rightarrow> string \<Rightarrow> int"

text \<open>
  The score table: an \<open>OrderedDict\<close> from scan index to score, kept as the list of its
  items in insertion order.
\<close>

type_synonym score_table = "(int \<times> int) list"

text \<open>
  \<open>doc[a:b]\<close>: a negative bound counts from the end, both bounds are clipped to
  \<open>[0, len]\<close> and the stop is raised to the start, as the slice normalisation of the
  token container does. No slice raises.
\<close>

definition slice_bound :: "nat \<Rightarrow> int \<Rightarrow> nat" where
  "slice_bound n i = nat (min (int n) (max 0 (if i < 0 then i + int n else i)))"

definition doc_slice :: "'a list \<Rightarrow> int \<Rightarrow> int \<Rightarrow> 'a list" where
  "doc_slice xs a b =
     (let s = slice_bound (length xs) a;
          e = max s (slice_bound (length xs) b)
      in take (e - s) (drop s xs))"

text \<open>
  \<open>doc[i]\<close>: the index is valid from \<open>-len\<close> to \<open>len - 1\<close>, a negative one counting
  from the end, and \<open>position\<close> is the place it reads. Any other index raises
  \<open>IndexError\<close>; the functions that read a token test \<open>valid_index\<close> first.
\<close>

definition valid_index :: "'a list \<Rightarrow> int \<Rightarrow> bool" where
  "valid_index xs i = (- int (length xs) \<le> i \<and> i < int (length xs))"

definition position :: "'a list \<Rightarrow> int \<Rightarrow> nat" where
  "position xs i = nat (if i < 0 then int (length xs) + i else i)"

text \<open>
  Surface text. \<open>Doc.text\<close> joins every token with its trailing whitespace;
  \<open>Span.text\<close> does the same and leaves out the whitespace after the last token.
  An empty span has the empty text.
\<close>

definition text_with_ws :: "token \<Rightarrow> string" where
  "text_with_ws t = tok_text t @ whitespace t"

definition doc_text :: "doc \<Rightarrow> string" where
  "doc_text ts = concat (map text_with_ws ts)"

definition span_text :: "doc \<Rightarrow> string" where
  "span_text ts = (if ts = [] then [] else doc_text (butlast ts) @ tok_text (last ts))"

text \<open>
  \<open>str.lower()\<close> on ASCII text: the letters \<open>A\<close> to \<open>Z\<close> are folded, every other
  character is left as it is. Python also folds the cased letters beyond ASCII; no
  statement below depends on how a string is lower-cased, only the closed examples
  evaluate it, on ASCII strings.
\<close>

definition lower_char :: "char \<Rightarrow> char" where
  "lower_char c =
     (let n = (of_char c :: nat) in if 65 \<le> n \<and> n \<le> 90 then char_of (n + 32) else c)"

definition lower :: "string \<Rightarrow> string" where
  "lower s = map lower_char s"

section \<open>\<open>FuzzySearch\<close>\<close>

text \<open>
  The ten functions of the \<open>fuzzywuzzy.fuzz\<close> module that the constructor registers.
  They are not part of the module, so they are fields of a record the engine carries.
\<close>

record fuzz =
  ratio :: alg
  partial_ratio :: alg
  token_set_ratio :: alg
  token_sort_ratio :: alg
  partial_token_set_ratio :: alg
  partial_token_sort_ratio :: alg
  QRatio :: alg
  UQRatio :: alg
  WRatio :: alg
  UWRatio :: alg

text \<open>
  The engine: the tokenizer behind \<open>nlp.make_doc\<close>, the three ignore settings
  (\<open>None\<close> and the empty tuple are both the empty list: each is falsy and never
  iterated) and the similarity library.
\<close>

record engine =
  nlp :: "string \<Rightarrow> doc"
  ignores :: "string list"
  left_ignores :: "string list"
  right_ignores :: "string list"
  fuzz_lib :: fuzz

definition ignore_rules :: "string \<Rightarrow> (token \<Rightarrow> bool) option" where
  "ignore_rules = map_of [(''space'', is_space), (''punct'', is_punct), (''stop'', is_stop)]"

definition fuzzy_algs :: "engine \<Rightarrow> (string \<times> alg) list" where
  "fuzzy_algs eng =
     [(''simple'', ratio (fuzz_lib eng)),
      (''partial'', partial_ratio (fuzz_lib eng)),
      (''token_set'', token_set_ratio (fuzz_lib eng)),
      (''token_sort'', token_sort_ratio (fuzz_lib eng)),
      (''partial_token_set'', partial_token_set_ratio (fuzz_lib eng)),
      (''partial_token_sort'', partial_token_sort_ratio (fuzz_lib eng)),
      (''quick'', QRatio (fuzz_lib eng)),
      (''u_quick'', UQRatio (fuzz_lib eng)),
      (''weighted'', WRatio (fuzz_lib eng)),
      (''u_weighted'', UWRatio (fuzz_lib eng))]"

text \<open>
  \<open>get_fuzzy_alg\<close>: the lookup raises \<open>ValueError\<close> on an unknown name. The warning
  it may print first does not change the result; \<open>get_fuzzy_alg_warns\<close> says when it
  is printed.
\<close>

definition get_fuzzy_alg_warns :: "string \<Rightarrow> bool \<Rightarrow> bool" where
  "get_fuzzy_alg_warns name case_sensitive =
     (case_sensitive \<and>
      List.member [''token_sort'', ''token_set'', ''partial_token_set'', ''partial_token_sort'',
                   ''quick'', ''u_quick'', ''weighted'', ''u_weighted''] name)"

definition get_fuzzy_alg :: "engine \<Rightarrow> string \<Rightarrow> bool \<Rightarrow> error + alg" where
  "get_fuzzy_alg eng name case_sensitive =
     (case map_of (fuzzy_algs eng) name of
        Some f \<Rightarrow> Inr f
      | None \<Rightarrow> Inl ValueError)"

text \<open>\<open>match\<close>: both strings are lower-cased unless \<open>case_sensitive\<close>.\<close>

definition match :: "string \<Rightarrow> string \<Rightarrow> alg \<Rightarrow> bool \<Rightarrow> int" where
  "match a b fuzzy_alg case_sensitive =
     (if \<not> case_sensitive then fuzzy_alg (lower a) (lower b) else fuzzy_alg a b)"

text \<open>
  \<open>_calc_flex\<close>: \<open>flex >= len(query) / 2\<close> is a comparison with a true quotient,
  that is \<open>2 * flex >= len(query)\<close>.
\<close>

definition calc_flex :: "int \<Rightarrow> doc \<Rightarrow> int" where
  "calc_flex flex query = (if 2 * flex \<ge> int (length query) then 1 else flex)"

text \<open>The score of the window \<open>doc[l:r]\<close> against the query.\<close>

definition window_score :: "alg \<Rightarrow> bool \<Rightarrow> doc \<Rightarrow> doc \<Rightarrow> int \<Rightarrow> int \<Rightarrow> int" where
  "window_score fuzzy_alg case_sensitive d query l r =
     match (doc_text query) (span_text (doc_slice d l r)) fuzzy_alg case_sensitive"

text \<open>
  \<open>_scan_doc\<close>. The \<open>while\<close> loop has no bound of its own: with \<open>step \<le> 0\<close> its
  condition never turns false once it holds. The loop is therefore a partial function,
  \<open>None\<close> standing for a scan that does not return. \<open>verbose\<close> only prints and is left
  out throughout.
\<close>

partial_function (option) scan_loop ::
  "alg \<Rightarrow> doc \<Rightarrow> doc \<Rightarrow> int \<Rightarrow> bool \<Rightarrow> int \<Rightarrow> int \<Rightarrow> int \<Rightarrow> score_table \<Rightarrow> score_table option"
where
  "scan_loop fuzzy_alg d query min_ratio case_sensitive step i m match_values =
     (if m + int (length query) - step \<le> int (length d) - 1 then
        scan_loop fuzzy_alg d query min_ratio case_sensitive step (i + 1) (m + step)
          (if window_score fuzzy_alg case_sensitive d query m (m + int (length query)) \<ge> min_ratio
           then match_values @
                  [(i, window_score fuzzy_alg case_sensitive d query m (m + int (length query)))]
           else match_values)
      else Some match_values)"

declare scan_loop.simps [code]

definition scan_doc ::
  "doc \<Rightarrow> doc \<Rightarrow> alg \<Rightarrow> int \<Rightarrow> bool \<Rightarrow> int \<Rightarrow> score_table option"
where
  "scan_doc d query fuzzy_alg min_ratio case_sensitive step =
     scan_loop fuzzy_alg d query min_ratio case_sensitive step 0 0 []"

text \<open>
  \<open>_index_max\<close>: \<open>max\<close> over the items by score keeps the first of several maximal
  items and raises \<open>ValueError\<close> on an empty table.
\<close>

fun index_max :: "score_table \<Rightarrow> error + int" where
  "index_max [] = Inl ValueError"
| "index_max (kv # kvs) =
     Inr (fst (foldl (\<lambda>best x. if snd x > snd best then x else best) kv kvs))"

text \<open>
  \<open>_indice_maxes\<close>: \<open>heapq.nlargest(n, keys, key=score)\<close> is the first \<open>n\<close> keys of
  a stable sort by descending score, and the empty list for \<open>n \<le> 0\<close>.
\<close>

definition indice_maxes :: "score_table \<Rightarrow> int \<Rightarrow> int list" where
  "indice_maxes match_values max_results =
     map fst (take (nat max_results) (sort_key (\<lambda>kv. - snd kv) match_values))"

text \<open>
  The ignore functions of one edge. Each rule key stands for its own function object, so
  \<open>func not in funcs\<close> is a test on the keys collected so far; unknown keys are skipped
  (the \<open>KeyError\<close> is caught).
\<close>

definition global_ignore_keys :: "string list \<Rightarrow> string list" where
  "global_ignore_keys ks = filter (\<lambda>k. ignore_rules k \<noteq> None) ks"

fun edge_ignore_keys :: "string list \<Rightarrow> string list \<Rightarrow> string list" where
  "edge_ignore_keys [] funcs = funcs"
| "edge_ignore_keys (k # ks) funcs =
     edge_ignore_keys ks
       (if ignore_rules k \<noteq> None \<and> \<not> List.member funcs k then funcs @ [k] else funcs)"

definition ignore_funcs :: "string list \<Rightarrow> string list \<Rightarrow> string list" where
  "ignore_funcs global edge = edge_ignore_keys edge (global_ignore_keys global)"

text \<open>\<open>any([func(tok) for func in funcs])\<close>.\<close>

definition any_ignore :: "string list \<Rightarrow> token \<Rightarrow> bool" where
  "any_ignore funcs tok =
     list_ex (\<lambda>k. case ignore_rules k of Some f \<Rightarrow> f tok | None \<Rightarrow> False) funcs"

text \<open>
  The loop of \<open>_enforce_left\<close>. With no function collected the list comprehension is
  empty and the token is not read; otherwise \<open>doc[bp_l]\<close> is read and may raise.
\<close>

function enforce_left_loop :: "string list \<Rightarrow> doc \<Rightarrow> int \<Rightarrow> int \<Rightarrow> error + int" where
  "enforce_left_loop funcs d bp_l bp_r =
     (if funcs = [] then Inr bp_l
      else if \<not> valid_index d bp_l then Inl IndexError
      else if any_ignore funcs (d ! position d bp_l) then
        (if bp_l = bp_r - 1 then Inr bp_l
         else enforce_left_loop funcs d (bp_l + 1) bp_r)
      else Inr bp_l)"
  by pat_completeness auto
termination
  by (relation "measure (\<lambda>(funcs, d, bp_l, bp_r). nat (int (length d) - bp_l))")
     (auto simp: valid_index_def)

declare enforce_left_loop.simps [simp del]

definition enforce_left :: "engine \<Rightarrow> doc \<Rightarrow> int \<Rightarrow> int \<Rightarrow> error + int" where
  "enforce_left eng d bp_l bp_r =
     (if ignores eng \<noteq> [] \<or> left_ignores eng \<noteq> [] then
        enforce_left_loop (ignore_funcs (ignores eng) (left_ignores eng)) d bp_l bp_r
      else Inr bp_l)"

text \<open>The loop of \<open>_enforce_right\<close>, entered after \<open>bp_r -= 1\<close>.\<close>

function enforce_right_loop :: "string list \<Rightarrow> doc \<Rightarrow> int \<Rightarrow> int \<Rightarrow> error + int" where
  "enforce_right_loop funcs d bp_l bp_r =
     (if funcs = [] then Inr bp_r
      else if \<not> valid_index d bp_r then Inl IndexError
      else if any_ignore funcs (d ! position d bp_r) then
        (if bp_r = bp_l then Inr bp_r
         else enforce_right_loop funcs d bp_l (bp_r - 1))
      else Inr bp_r)"
  by pat_completeness auto
termination
  by (relation "measure (\<lambda>(funcs, d, bp_l, bp_r). nat (int (length d) + bp_r + 1))")
     (auto simp: valid_index_def)

declare enforce_right_loop.simps [simp del]

definition enforce_right :: "engine \<Rightarrow> doc \<Rightarrow> int \<Rightarrow> int \<Rightarrow> error + int" where
  "enforce_right eng d bp_l bp_r =
     (if ignores eng \<noteq> [] \<or> right_ignores eng \<noteq> [] then
        (case enforce_right_loop (ignore_funcs (ignores eng) (right_ignores eng)) d bp_l (bp_r - 1) of
           Inl e \<Rightarrow> Inl e
         | Inr r \<Rightarrow> Inr (r + 1))
      else Inr bp_r)"

definition enforce_rules :: "engine \<Rightarrow> doc \<Rightarrow> int \<Rightarrow> int \<Rightarrow> error + (int \<times> int)" where
  "enforce_rules eng d bp_l bp_r =
     (case enforce_left eng d bp_l bp_r of
        Inl e \<Rightarrow> Inl e
      | Inr l \<Rightarrow>
          if bp_r > l then
            (case enforce_right eng d l bp_r of
               Inl e \<Rightarrow> Inl e
             | Inr r \<Rightarrow> Inr (l, r))
          else Inr (l, bp_r))"

text \<open>
  \<open>_adjust_left_right_positions\<close>. The four variables the \<open>for\<close> loop updates are a
  record; \<open>flex_step\<close> is one pass of the loop body, in the order of the source.
\<close>

record bounds =
  bp_l :: int
  bmv_l :: int
  bp_r :: int
  bmv_r :: int

definition flex_step :: "(int \<Rightarrow> int \<Rightarrow> int) \<Rightarrow> int \<Rightarrow> int \<Rightarrow> int \<Rightarrow> bounds \<Rightarrow> bounds" where
  "flex_step score p_l p_r f s0 =
     (let ll = score (p_l - f) p_r;
          s1 = (if ll > bmv_l s0 then s0\<lparr>bmv_l := ll, bp_l := p_l - f\<rparr> else s0);
          lr = score (p_l + f) p_r;
          s2 = (if lr > bmv_l s1 then s1\<lparr>bmv_l := lr, bp_l := p_l + f\<rparr> else s1);
          rl = score p_l (p_r - f);
          s3 = (if rl > bmv_r s2 then s2\<lparr>bmv_r := rl, bp_r := p_r - f\<rparr> else s2);
          rr = score p_l (p_r + f);
          s4 = (if rr > bmv_r s3 then s3\<lparr>bmv_r := rr, bp_r := p_r + f\<rparr> else s3)
      in s4)"

text \<open>\<open>range(flex)\<close>, empty for \<open>flex \<le> 0\<close>.\<close>

definition flex_range :: "int \<Rightarrow> int list" where
  "flex_range flex = map int [0..<nat flex]"

definition flex_loop :: "(int \<Rightarrow> int \<Rightarrow> int) \<Rightarrow> int \<Rightarrow> int \<Rightarrow> int \<Rightarrow> int \<Rightarrow> bounds" where
  "flex_loop score p_l p_r base flex =
     fold (flex_step score p_l p_r) (flex_range flex)
       \<lparr>bp_l = p_l, bmv_l = base, bp_r = p_r, bmv_r = base\<rparr>"

definition adjust_left_right_positions ::
  "engine \<Rightarrow> doc \<Rightarrow> doc \<Rightarrow> score_table \<Rightarrow> alg \<Rightarrow> bool \<Rightarrow> int \<Rightarrow> int \<Rightarrow> int
     \<Rightarrow> error + (int \<times> int \<times> int)"
where
  "adjust_left_right_positions eng d query match_values fuzzy_alg case_sensitive pos step flex =
     (let p_l = pos; p_r = pos + int (length query) in
      if step = 0 then Inl ZeroDivisionError
      else case map_of match_values (p_l div step) of
        None \<Rightarrow> Inl KeyError
      | Some base \<Rightarrow>
          (let s = flex_loop (window_score fuzzy_alg case_sensitive d query) p_l p_r base flex in
           case enforce_rules eng d (bp_l s) (bp_r s) of
             Inl e \<Rightarrow> Inl e
           | Inr (l, r) \<Rightarrow> Inr (l, r, window_score fuzzy_alg case_sensitive d query l r)))"

text \<open>
  A returned match: the span \<open>doc[start:end]\<close> (its tokens), \<open>start\<close>, \<open>end\<close> and the
  score, as the 4-tuple of the source.
\<close>

type_synonym match = "doc \<times> int \<times> int \<times> int"

definition m_start :: "match \<Rightarrow> int" where "m_start m = fst (snd m)"
definition m_end :: "match \<Rightarrow> int" where "m_end m = fst (snd (snd m))"
definition m_score :: "match \<Rightarrow> int" where "m_score m = snd (snd (snd m))"

definition to_match :: "doc \<Rightarrow> int \<times> int \<times> int \<Rightarrow> match" where
  "to_match d t = (case t of (l, r, sc) \<Rightarrow> (doc_slice d l r, l, r, sc))"

text \<open>
  \<open>best_match\<close> after the scan has returned its table. \<open>Inr None\<close> is the \<open>None\<close> the
  function returns by falling off its end.
\<close>

definition best_match_of ::
  "engine \<Rightarrow> doc \<Rightarrow> doc \<Rightarrow> alg \<Rightarrow> int \<Rightarrow> bool \<Rightarrow> int \<Rightarrow> int \<Rightarrow> score_table
     \<Rightarrow> error + match option"
where
  "best_match_of eng d query fuzzy_alg min_ratio case_sensitive step flex match_values =
     (case index_max match_values of
        Inl e \<Rightarrow> Inl e
      | Inr i \<Rightarrow>
          (case adjust_left_right_positions eng d query match_values fuzzy_alg case_sensitive
                  (i * step) step flex of
             Inl e \<Rightarrow> Inl e
           | Inr t \<Rightarrow>
               if snd (snd t) \<ge> min_ratio then Inr (Some (to_match d t)) else Inr None))"

text \<open>
  \<open>best_match\<close>. The outer \<open>option\<close> is \<open>None\<close> when the scan does not return.
\<close>

definition best_match ::
  "engine \<Rightarrow> doc \<Rightarrow> string \<Rightarrow> string \<Rightarrow> int \<Rightarrow> bool \<Rightarrow> int \<Rightarrow> int
     \<Rightarrow> (error + match option) option"
where
  "best_match eng d query_str fuzzy_alg min_ratio case_sensitive step flex =
     (let query = nlp eng query_str;
          flex' = calc_flex flex query
      in case get_fuzzy_alg eng fuzzy_alg case_sensitive of
           Inl e \<Rightarrow> Some (Inl e)
         | Inr alg \<Rightarrow>
             map_option (best_match_of eng d query alg min_ratio case_sensitive step flex')
               (scan_doc d query alg min_ratio case_sensitive step))"

text \<open>A list comprehension whose element expression may raise: the first error wins.\<close>

fun collect :: "(error + 'a) list \<Rightarrow> error + 'a list" where
  "collect [] = Inr []"
| "collect (Inl e # xs) = Inl e"
| "collect (Inr x # xs) = (case collect xs of Inl e \<Rightarrow> Inl e | Inr ys \<Rightarrow> Inr (x # ys))"

text \<open>
  \<open>_filter_overlapping_matches\<close>: a match is kept when \<open>range(start, end)\<close> shares no
  index with the range of a match kept before it.
\<close>

definition token_range :: "int \<Rightarrow> int \<Rightarrow> int list" where
  "token_range a b = [a..b - 1]"

definition shares_index :: "match \<Rightarrow> match list \<Rightarrow> bool" where
  "shares_index m filtered_matches =
     list_ex (\<lambda>i. list_ex (\<lambda>n. List.member (token_range (m_start n) (m_end n)) i) filtered_matches)
       (token_range (m_start m) (m_end m))"

definition filter_overlapping_matches :: "match list \<Rightarrow> match list" where
  "filter_overlapping_matches matches =
     fold (\<lambda>m filtered_matches.
             if \<not> shares_index m filtered_matches then filtered_matches @ [m]
             else filtered_matches)
       matches []"

text \<open>
  \<open>multi_match\<close> after the scan. \<open>sorted(..., reverse=True)\<close> is stable: matches of
  equal score keep their order.
\<close>

definition multi_match_of ::
  "engine \<Rightarrow> doc \<Rightarrow> doc \<Rightarrow> int \<Rightarrow> alg \<Rightarrow> int \<Rightarrow> bool \<Rightarrow> int \<Rightarrow> int \<Rightarrow> score_table
     \<Rightarrow> error + match list"
where
  "multi_match_of eng d query max_results fuzzy_alg min_ratio case_sensitive step flex match_values =
     (let positions = map (\<lambda>pos. pos * step) (indice_maxes match_values max_results) in
      case collect (map (\<lambda>pos. adjust_left_right_positions eng d query match_values fuzzy_alg
                                 case_sensitive pos step flex) positions) of
        Inl e \<Rightarrow> Inl e
      | Inr ts \<Rightarrow>
          Inr (filter_overlapping_matches
                 (sort_key (\<lambda>m. - m_score m)
                    (map (to_match d) (filter (\<lambda>t. snd (snd t) \<ge> min_ratio) ts)))))"

definition multi_match ::
  "engine \<Rightarrow> doc \<Rightarrow> string \<Rightarrow> int \<Rightarrow> string \<Rightarrow> int \<Rightarrow> bool \<Rightarrow> int \<Rightarrow> int
     \<Rightarrow> (error + match list) option"
where
  "multi_match eng d query_str max_results fuzzy_alg min_ratio case_sensitive step flex =
     (let query = nlp eng query_str;
          flex' = calc_flex flex query
      in case get_fuzzy_alg eng fuzzy_alg case_sensitive of
           Inl e \<Rightarrow> Some (Inl e)
         | Inr alg \<Rightarrow>
             map_option
               (multi_match_of eng d query max_results alg min_ratio case_sensitive step flex')
               (scan_doc d query alg min_ratio case_sensitive step))"

section \<open>\<open>FuzzyRuler\<close>\<close>

text \<open>
  An entity span: start, end (exclusive) and label. The document's entity collection
  \<open>doc.ents\<close> is kept beside the tokens as the list of its spans, in the order of their
  registration. The container itself lists them by token position; the module never
  depends on that order (a registration conflict is a shared token index).

  \<open>Span(doc, start, end, label)\<close> raises \<open>IndexError\<close> unless
  \<open>0 \<le> start \<le> end \<le> len(doc)\<close>.
\<close>

type_synonym span = "int \<times> int \<times> string"

definition Span :: "doc \<Rightarrow> int \<Rightarrow> int \<Rightarrow> string \<Rightarrow> error + span" where
  "Span d start stop label =
     (if 0 \<le> start \<and> start \<le> stop \<and> stop \<le> int (length d) then Inr (start, stop, label)
      else Inl IndexError)"

definition span_range :: "span \<Rightarrow> int list" where
  "span_range sp = (case sp of (start, stop, label) \<Rightarrow> token_range start stop)"

text \<open>
  \<open>doc.ents += (span,)\<close>: the setter raises \<open>ValueError\<close> when a token index lies in
  two of the spans it is given, and changes nothing then. A span without tokens sets
  no entity.
\<close>

definition ents_conflict :: "span list \<Rightarrow> bool" where
  "ents_conflict spans = (\<not> distinct (concat (map span_range spans)))"

definition ents_add :: "span list \<Rightarrow> span \<Rightarrow> error + span list" where
  "ents_add ents sp =
     (if ents_conflict (ents @ [sp]) then Inl ValueError
      else Inr (filter (\<lambda>s. span_range s \<noteq> []) (ents @ [sp])))"

text \<open>\<open>doc[i].ent_type_\<close>: the label of the entity over token \<open>i\<close>, empty if none.\<close>

definition ent_type_at :: "doc \<Rightarrow> span list \<Rightarrow> int \<Rightarrow> error + string" where
  "ent_type_at d ents i =
     (if valid_index d i then
        Inr (case find (\<lambda>sp. List.member (span_range sp) (int (position d i))) ents of
               Some (start, stop, label) \<Rightarrow> label
             | None \<Rightarrow> [])
      else Inl IndexError)"

text \<open>The keyword arguments a ruler passes on to \<open>multi_match\<close>.\<close>

record match_kwargs =
  kw_max_results :: int
  kw_fuzzy_alg :: string
  kw_min_ratio :: int
  kw_case_sensitive :: bool
  kw_step :: int
  kw_flex :: int

definition default_kwargs :: match_kwargs where
  "default_kwargs =
     \<lparr>kw_max_results = 3, kw_fuzzy_alg = ''simple'', kw_min_ratio = 70,
      kw_case_sensitive = False, kw_step = 1, kw_flex = 1\<rparr>"

record ruler =
  r_engine :: engine
  search_terms :: "string list"
  labels :: "string list"
  overlap_adjust :: int
  kwargs :: match_kwargs

text \<open>The constructor: one label per term, or one label for all terms.\<close>

definition FuzzyRuler ::
  "engine \<Rightarrow> string list \<Rightarrow> string list \<Rightarrow> int \<Rightarrow> match_kwargs \<Rightarrow> error + ruler"
where
  "FuzzyRuler eng terms labs adjust kw =
     (if length labs = length terms then
        Inr \<lparr>r_engine = eng, search_terms = terms, labels = labs,
             overlap_adjust = adjust, kwargs = kw\<rparr>
      else if length labs = 1 \<and> length labs < length terms then
        Inr \<lparr>r_engine = eng, search_terms = terms,
             labels = concat (replicate (length terms) labs),
             overlap_adjust = adjust, kwargs = kw\<rparr>
      else Inl ValueError)"

text \<open>
  \<open>_adjust_ent_boundaries\<close>: the loop over \<open>i = 1 .. overlap_adjust\<close>. A shrunk span
  replaces \<open>span\<close> also when its registration fails. \<open>Inr (Inl ents)\<close> is a \<open>break\<close>
  with the entities after a successful registration, \<open>Inr (Inr span)\<close> goes on to the
  second test or the next \<open>i\<close>.
\<close>

definition shrink_start ::
  "doc \<Rightarrow> string \<Rightarrow> int \<Rightarrow> span \<Rightarrow> span list \<Rightarrow> error + (span list + span)"
where
  "shrink_start d label i sp ents =
     (case sp of (start, stop, l) \<Rightarrow>
        (case ent_type_at d ents start of
           Inl e \<Rightarrow> Inl e
         | Inr ty \<Rightarrow>
             if ty \<noteq> [] \<and> start < int (length d) - i \<and> start + i < stop then
               (case Span d (start + i) stop label of
                  Inl e \<Rightarrow> Inl e
                | Inr sp' \<Rightarrow>
                    (case ents_add ents sp' of
                       Inr ents' \<Rightarrow> Inr (Inl ents')
                     | Inl e \<Rightarrow> Inr (Inr sp')))
             else Inr (Inr sp)))"

definition shrink_end ::
  "doc \<Rightarrow> string \<Rightarrow> int \<Rightarrow> span \<Rightarrow> span list \<Rightarrow> error + (span list + span)"
where
  "shrink_end d label i sp ents =
     (case sp of (start, stop, l) \<Rightarrow>
        (case ent_type_at d ents (stop - i) of
           Inl e \<Rightarrow> Inl e
         | Inr ty \<Rightarrow>
             if ty \<noteq> [] \<and> stop - i > 0 \<and> stop - i > start then
               (case Span d start (stop - i) label of
                  Inl e \<Rightarrow> Inl e
                | Inr sp' \<Rightarrow>
                    (case ents_add ents sp' of
                       Inr ents' \<Rightarrow> Inr (Inl ents')
                     | Inl e \<Rightarrow> Inr (Inr sp')))
             else Inr (Inr sp)))"

fun adjust_loop :: "doc \<Rightarrow> string \<Rightarrow> int list \<Rightarrow> span \<Rightarrow> span list \<Rightarrow> error + span list" where
  "adjust_loop d label [] sp ents = Inr ents"
| "adjust_loop d label (i # rest) sp ents =
     (case shrink_start d label i sp ents of
        Inl e \<Rightarrow> Inl e
      | Inr (Inl ents') \<Rightarrow> Inr ents'
      | Inr (Inr sp1) \<Rightarrow>
          (case shrink_end d label i sp1 ents of
             Inl e \<Rightarrow> Inl e
           | Inr (Inl ents') \<Rightarrow> Inr ents'
           | Inr (Inr sp2) \<Rightarrow> adjust_loop d label rest sp2 ents))"

definition adjust_ent_boundaries ::
  "ruler \<Rightarrow> doc \<Rightarrow> span list \<Rightarrow> span \<Rightarrow> string \<Rightarrow> error + span list"
where
  "adjust_ent_boundaries rl d ents sp label =
     adjust_loop d label [1..overlap_adjust rl] sp ents"

text \<open>\<open>_update_entities\<close>: only the \<open>ValueError\<close> of the registration is caught.\<close>

definition update_entities ::
  "ruler \<Rightarrow> doc \<Rightarrow> span list \<Rightarrow> span \<Rightarrow> string \<Rightarrow> error + span list"
where
  "update_entities rl d ents sp label =
     (case ents_add ents sp of
        Inr ents' \<Rightarrow> Inr ents'
      | Inl e \<Rightarrow>
          if overlap_adjust rl \<noteq> 0 then adjust_ent_boundaries rl d ents sp label
          else Inr ents)"

text \<open>\<open>_iter_matches\<close> over the labelled matches \<open>(span, start, end, score, label)\<close>.\<close>

fun iter_matches ::
  "ruler \<Rightarrow> doc \<Rightarrow> span list \<Rightarrow> (match \<times> string) list \<Rightarrow> error + span list"
where
  "iter_matches rl d ents [] = Inr ents"
| "iter_matches rl d ents ((m, label) # rest) =
     (case Span d (m_start m) (m_end m) label of
        Inl e \<Rightarrow> Inl e
      | Inr sp \<Rightarrow>
          (case update_entities rl d ents sp label of
             Inl e \<Rightarrow> Inl e
           | Inr ents' \<Rightarrow> iter_matches rl d ents' rest))"

text \<open>
  \<open>__call__\<close>: the matches of every term, in the order of the terms, then the
  registration pass. The outer \<open>option\<close> is \<open>None\<close> when a scan does not return.
\<close>

fun gather_matches ::
  "ruler \<Rightarrow> doc \<Rightarrow> (string \<times> string) list \<Rightarrow> (error + (match \<times> string) list) option"
where
  "gather_matches rl d [] = Some (Inr [])"
| "gather_matches rl d ((term, label) # rest) =
     (case multi_match (r_engine rl) d term (kw_max_results (kwargs rl)) (kw_fuzzy_alg (kwargs rl))
             (kw_min_ratio (kwargs rl)) (kw_case_sensitive (kwargs rl)) (kw_step (kwargs rl))
             (kw_flex (kwargs rl)) of
        None \<Rightarrow> None
      | Some (Inl e) \<Rightarrow> Some (Inl e)
      | Some (Inr ms) \<Rightarrow>
          (case gather_matches rl d rest of
             None \<Rightarrow> None
           | Some (Inl e) \<Rightarrow> Some (Inl e)
           | Some (Inr others) \<Rightarrow> Some (Inr (map (\<lambda>m. (m, label)) ms @ others))))"

definition call :: "ruler \<Rightarrow> doc \<Rightarrow> span list \<Rightarrow> (error + span list) option" where
  "call rl d ents =
     (case gather_matches rl d (zip (search_terms rl) (labels rl)) of
        None \<Rightarrow> None
      | Some (Inl e) \<Rightarrow> Some (Inl e)
      | Some (Inr matches) \<Rightarrow> Some (iter_matches rl d ents matches))"

section \<open>An instance of the tokenizer and of the similarity library\<close>

text \<open>
  Closed examples need a tokenizer and a \<open>fuzz.ratio\<close>. \<open>simple_ratio\<close> is the ratio
  \<open>2 * M / T\<close> in percent, rounded half to even, where \<open>T\<close> is the total length of the
  two strings and \<open>M\<close> the length of their longest common subsequence; equal strings
  score 100 and an empty string against a non-empty one scores 0. The general theorems
  do not depend on it: they hold for every similarity function, under the hypotheses
  they state.
\<close>

fun lcs_row :: "'a \<Rightarrow> 'a list \<Rightarrow> nat list \<Rightarrow> nat \<Rightarrow> nat list" where
  "lcs_row x (y # ys) (diag # up # prev) left =
     (let c = (if x = y then diag + 1 else max up left) in c # lcs_row x ys (up # prev) c)"
| "lcs_row x ys prev left = []"

definition lcs_length :: "'a list \<Rightarrow> 'a list \<Rightarrow> nat" where
  "lcs_length a b = last (fold (\<lambda>x row. 0 # lcs_row x b row 0) a (replicate (length b + 1) 0))"

definition round_half_even :: "nat \<Rightarrow> nat \<Rightarrow> nat" where
  "round_half_even p q =
     (let k = p div q; r = p mod q
      in if 2 * r < q then k
         else if 2 * r > q then k + 1
         else if even k then k else k + 1)"

definition simple_ratio :: alg where
  "simple_ratio a b =
     (if a = b then 100
      else if a = [] \<or> b = [] then 0
      else int (round_half_even (200 * lcs_length a b) (length a + length b)))"

definition demo_fuzz :: fuzz where
  "demo_fuzz =
     \<lparr>ratio = simple_ratio, partial_ratio = simple_ratio, token_set_ratio = simple_ratio,
      token_sort_ratio = simple_ratio, partial_token_set_ratio = simple_ratio,
      partial_token_sort_ratio = simple_ratio, QRatio = simple_ratio, UQRatio = simple_ratio,
      WRatio = simple_ratio, UWRatio = simple_ratio\<rparr>"

text \<open>
  \<open>words\<close> tokenizes text whose words are separated by single blanks: every word is a
  token, followed by one blank unless it is the last. \<open>the\<close>, \<open>a\<close>, \<open>of\<close> and \<open>and\<close>
  are the stop words.
\<close>

definition word_token :: "string \<Rightarrow> string \<Rightarrow> token" where
  "word_token w ws =
     \<lparr>tok_text = w, whitespace = ws, is_space = False,
      is_punct = List.member [''.'', '','', ''!'', ''?''] w,
      is_stop = List.member [''the'', ''a'', ''of'', ''and''] (lower w)\<rparr>"

fun words_from :: "string \<Rightarrow> string \<Rightarrow> doc" where
  "words_from w [] = (if w = [] then [] else [word_token w []])"
| "words_from w (c # cs) =
     (if c = CHR '' '' then word_token w [c] # words_from [] cs
      else words_from (w @ [c]) cs)"

definition words :: "string \<Rightarrow> doc" where
  "words s = words_from [] s"

definition demo_engine :: engine where
  "demo_engine =
     \<lparr>nlp = words, ignores = [''space'', ''punct'', ''stop''], left_ignores = [],
      right_ignores = [], fuzz_lib = demo_fuzz\<rparr>"

section \<open>Closed forms used in the statements\<close>

text \<open>
  The number of passes of the scan loop that starts at offset \<open>m\<close> with a positive
  step, and the windows it evaluates: pass \<open>k\<close> has the scan index \<open>i + k\<close> and the
  window that starts at \<open>m + k * step\<close>.
\<close>

definition scan_count :: "nat \<Rightarrow> nat \<Rightarrow> int \<Rightarrow> int \<Rightarrow> nat" where
  "scan_count ld lq step m =
     (if m + int lq - step \<le> int ld - 1
      then nat ((int ld - 1 - int lq + step - m) div step) + 1 else 0)"

definition scan_windows ::
  "alg \<Rightarrow> doc \<Rightarrow> doc \<Rightarrow> bool \<Rightarrow> int \<Rightarrow> int \<Rightarrow> int \<Rightarrow> nat \<Rightarrow> score_table" where
  "scan_windows fuzzy_alg d query case_sensitive step i m n =
     map (\<lambda>k. (i + int k,
                window_score fuzzy_alg case_sensitive d query (m + int k * step)
                  (m + int k * step + int (length query))))
       [0..<n]"

definition scan_table :: "alg \<Rightarrow> doc \<Rightarrow> doc \<Rightarrow> int \<Rightarrow> bool \<Rightarrow> int \<Rightarrow> score_table" where
  "scan_table fuzzy_alg d query min_ratio case_sensitive step =
     filter (\<lambda>kv. snd kv \<ge> min_ratio)
       (scan_windows fuzzy_alg d query case_sensitive step 0 0
          (scan_count (length d) (length query) step 0))"

text \<open>
  The refinement as the specification words it: two independent searches, one per edge.
  \<open>strict_best\<close> runs through a list of candidates \<open>(boundary, score)\<close> and replaces the
  running best only by a strictly better candidate. The candidates of an edge are, radius
  by radius, the boundary moved down and the boundary moved up by that radius.
\<close>

definition strict_best :: "(int \<times> int) list \<Rightarrow> int \<times> int \<Rightarrow> int \<times> int" where
  "strict_best cands start = fold (\<lambda>c best. if snd c > snd best then c else best) cands start"

definition left_candidates :: "(int \<Rightarrow> int \<Rightarrow> int) \<Rightarrow> int \<Rightarrow> int \<Rightarrow> int list \<Rightarrow> (int \<times> int) list" where
  "left_candidates score p_l p_r fs =
     concat (map (\<lambda>f. [(p_l - f, score (p_l - f) p_r), (p_l + f, score (p_l + f) p_r)]) fs)"

definition right_candidates :: "(int \<Rightarrow> int \<Rightarrow> int) \<Rightarrow> int \<Rightarrow> int \<Rightarrow> int list \<Rightarrow> (int \<times> int) list" where
  "right_candidates score p_l p_r fs =
     concat (map (\<lambda>f. [(p_r - f, score p_l (p_r - f)), (p_r + f, score p_l (p_r + f))]) fs)"

text \<open>Two matches share no token index.\<close>

definition disjoint_ranges :: "match \<Rightarrow> match \<Rightarrow> bool" where
  "disjoint_ranges a b = ({m_start a..<m_end a} \<inter> {m_start b..<m_end b} = {})"

text \<open>
  An entity collection as the container keeps it: no token index in two spans, and no
  span without tokens.
\<close>

definition ents_ok :: "span list \<Rightarrow> bool" where
  "ents_ok ents = (\<not> ents_conflict ents \<and> list_all (\<lambda>s. span_range s \<noteq> []) ents)"

text \<open>A ruler with two terms, two labels and no overlap adjustment, for closed examples.\<close>

definition demo_ruler :: ruler where
  "demo_ruler =
     \<lparr>r_engine = demo_engine, search_terms = [''new york'', ''york city''],
      labels = [''A'', ''B''], overlap_adjust = 0, kwargs = default_kwargs\<rparr>"

section \<open>Properties\<close>

subsection \<open>The scan\<close>

lemma div_step_down:
  fixes B step :: int
  assumes "0 < step"
  shows "B div step = (B - step) div step + 1"
proof -
  have "B div step = ((B - step) + step) div step" by simp
  also have "\<dots> = (B - step) div step + 1"
    using assms by (subst div_add_self2) simp_all
  finally show ?thesis .
qed

lemma scan_count_step:
  assumes "0 < step" "m + int lq - step \<le> int ld - 1"
  shows "scan_count ld lq step m = Suc (scan_count ld lq step (m + step))"
proof -
  define B where "B = int ld - 1 - int lq + step - m"
  have B: "0 \<le> B" using assms by (simp add: B_def)
  have d: "B div step = (B - step) div step + 1"
    using assms(1) by (rule div_step_down)
  have e: "int ld - 1 - int lq + step - (m + step) = B - step" by (simp add: B_def)
  have cm: "scan_count ld lq step m = nat (B div step) + 1"
    using assms(2) unfolding scan_count_def B_def by simp
  show ?thesis
  proof (cases "m + step + int lq - step \<le> int ld - 1")
    case True
    then have "0 \<le> B - step" by (simp add: B_def)
    then have nn: "0 \<le> (B - step) div step" using assms(1) by (simp add: pos_imp_zdiv_nonneg_iff)
    have "scan_count ld lq step (m + step) = nat ((B - step) div step) + 1"
      using True unfolding scan_count_def e by simp
    then show ?thesis using cm d nn by (simp add: nat_add_distrib)
  next
    case False
    then have "B < step" by (simp add: B_def)
    then have "B div step = 0" using B by simp
    moreover have "scan_count ld lq step (m + step) = 0"
      using False by (simp add: scan_count_def)
    ultimately show ?thesis using cm by simp
  qed
qed

lemma scan_windows_Suc:
  "scan_windows fuzzy_alg d query case_sensitive step i m (Suc n) =
     (i, window_score fuzzy_alg case_sensitive d query m (m + int (length query))) #
     scan_windows fuzzy_alg d query case_sensitive step (i + 1) (m + step) n"
proof -
  have "[0..<Suc n] = 0 # map Suc [0..<n]"
    by (simp add: upt_conv_Cons map_Suc_upt del: upt_Suc)
  then show ?thesis
    unfolding scan_windows_def
    by (simp add: o_def algebra_simps del: upt_Suc)
qed

lemma scan_loop_returns:
  assumes "0 < step"
  shows "scan_loop fuzzy_alg d query min_ratio case_sensitive step i m match_values =
         Some (match_values @
               filter (\<lambda>kv. snd kv \<ge> min_ratio)
                 (scan_windows fuzzy_alg d query case_sensitive step i m
                    (scan_count (length d) (length query) step m)))"
proof (induction "scan_count (length d) (length query) step m" arbitrary: i m match_values)
  case 0
  then have "\<not> m + int (length query) - step \<le> int (length d) - 1"
    by (auto simp: scan_count_def split: if_splits)
  then show ?case using 0 [symmetric]
    by (subst scan_loop.simps) (simp add: scan_windows_def)
next
  case (Suc n)
  then have c: "m + int (length query) - step \<le> int (length d) - 1"
    by (auto simp: scan_count_def split: if_splits)
  from scan_count_step [OF assms c] Suc.hyps(2)
  have n: "n = scan_count (length d) (length query) step (m + step)" by simp
  show ?case
    apply (subst scan_loop.simps)
    apply (simp only: c if_True Suc.hyps(1) [OF n])
    apply (simp add: Suc.hyps(2) [symmetric] scan_windows_Suc n [symmetric])
    done
qed

lemma scan_loop_diverges_aux:
  assumes "scan_loop fuzzy_alg d query min_ratio case_sensitive step i m match_values = Some y"
  shows "step \<le> 0 \<longrightarrow> \<not> m + int (length query) - step \<le> int (length d) - 1"
proof (rule scan_loop.raw_induct
    [where P = "\<lambda>(a::alg) (d::doc) (q::doc) (mr::int) (cs::bool) (st::int) (i::int) (m::int)
                  (mv::score_table) (y::score_table).
                  st \<le> 0 \<longrightarrow> \<not> m + int (length q) - st \<le> int (length d) - 1",
     OF _ assms])
  fix f :: "alg \<Rightarrow> doc \<Rightarrow> doc \<Rightarrow> int \<Rightarrow> bool \<Rightarrow> int \<Rightarrow> int \<Rightarrow> int \<Rightarrow> score_table \<Rightarrow> score_table option"
  fix a :: alg and d q :: doc and mr :: int and cs :: bool and st i m :: int
    and mv y :: score_table
  assume IH: "\<And>a d q mr cs st i m mv y. f a d q mr cs st i m mv = Some y \<Longrightarrow>
                 st \<le> 0 \<longrightarrow> \<not> m + int (length q) - st \<le> int (length d) - 1"
  assume eq: "(if m + int (length q) - st \<le> int (length d) - 1
               then f a d q mr cs st (i + 1) (m + st)
                      (if mr \<le> window_score a cs d q m (m + int (length q))
                       then mv @ [(i, window_score a cs d q m (m + int (length q)))]
                       else mv)
               else Some mv) = Some y"
  show "st \<le> 0 \<longrightarrow> \<not> m + int (length q) - st \<le> int (length d) - 1"
  proof (intro impI notI)
    assume s: "st \<le> 0" and c: "m + int (length q) - st \<le> int (length d) - 1"
    from eq c obtain mv' where "f a d q mr cs st (i + 1) (m + st) mv' = Some y"
      by (auto split: if_splits)
    from IH [OF this] s
    have "\<not> m + st + int (length q) - st \<le> int (length d) - 1" by simp
    with s c show False by simp
  qed
qed

lemma scan_doc_returns:
  assumes "0 < step"
  shows "scan_doc d query fuzzy_alg min_ratio case_sensitive step =
         Some (filter (\<lambda>kv. snd kv \<ge> min_ratio)
                 (scan_windows fuzzy_alg d query case_sensitive step 0 0
                    (scan_count (length d) (length query) step 0)))"
  unfolding scan_doc_def by (simp add: scan_loop_returns [OF assms])

lemma scan_doc_stops_at_once:
  assumes "\<not> int (length query) - step \<le> int (length d) - 1"
  shows "scan_doc d query fuzzy_alg min_ratio case_sensitive step = Some []"
  unfolding scan_doc_def using assms by (subst scan_loop.simps) simp

lemma scan_doc_diverges:
  assumes "step \<le> 0" "int (length query) - step \<le> int (length d) - 1"
  shows "scan_doc d query fuzzy_alg min_ratio case_sensitive step = None"
proof (cases "scan_doc d query fuzzy_alg min_ratio case_sensitive step")
  case None
  then show ?thesis .
next
  case (Some y)
  from scan_loop_diverges_aux [OF Some [unfolded scan_doc_def]] assms
  show ?thesis by simp
qed

lemma scan_count_iff:
  assumes "0 < step"
  shows "k < scan_count ld lq step m \<longleftrightarrow> m + int k * step + int lq - step \<le> int ld - 1"
proof (induction k arbitrary: m)
  case 0
  show ?case by (simp add: scan_count_def)
next
  case (Suc k)
  show ?case
  proof (cases "m + int lq - step \<le> int ld - 1")
    case True
    from scan_count_step [OF assms True] Suc [of "m + step"]
    show ?thesis by (simp add: algebra_simps)
  next
    case False
    then have z: "scan_count ld lq step m = 0" by (simp add: scan_count_def)
    define x where "x = int k * step"
    have p: "0 \<le> x" using assms by (simp add: x_def)
    have e: "int (Suc k) * step = x + step" by (simp add: x_def algebra_simps)
    from False p assms have "\<not> m + (x + step) + int lq - step \<le> int ld - 1"
      by simp
    then show ?thesis by (simp only: z e) simp
  qed
qed

lemma map_of_filter_upt:
  "map_of (filter P (map (\<lambda>k. (i + int k, g k)) [0..<n])) (i + int j) =
     (if j < n \<and> P (i + int j, g j) then Some (g j) else None)"
proof (induction n)
  case 0
  then show ?case by simp
next
  case (Suc n)
  have "i + int n \<notin> fst ` set (filter P (map (\<lambda>k. (i + int k, g k)) [0..<n]))"
    by auto
  then have none: "map_of (filter P (map (\<lambda>k. (i + int k, g k)) [0..<n])) (i + int n) = None"
    by (rule map_of_eq_None_iff [THEN iffD2])
  show ?case
  proof (cases "j = n")
    case True
    with none show ?thesis
      by (simp add: map_of_append map_add_def)
  next
    case False
    then show ?thesis using Suc
      by (simp add: map_of_append map_add_def split: option.splits)
  qed
qed

lemma scan_doc_cases:
  "scan_doc d query fuzzy_alg min_ratio case_sensitive step =
     (if step \<le> 0 \<and> int (length query) - step \<le> int (length d) - 1 then None
      else Some (scan_table fuzzy_alg d query min_ratio case_sensitive step))"
proof (cases "0 < step")
  case True
  then show ?thesis by (simp add: scan_doc_returns scan_table_def)
next
  case False
  show ?thesis
  proof (cases "int (length query) - step \<le> int (length d) - 1")
    case True
    with False show ?thesis by (simp add: scan_doc_diverges)
  next
    case False
    then have "scan_count (length d) (length query) step 0 = 0" by (simp add: scan_count_def)
    with False show ?thesis
      by (simp add: scan_doc_stops_at_once scan_table_def scan_windows_def)
  qed
qed

lemma scan_table_lookup:
  "map_of (scan_table fuzzy_alg d query min_ratio case_sensitive step) (int k) =
     (if k < scan_count (length d) (length query) step 0 \<and>
         min_ratio \<le> window_score fuzzy_alg case_sensitive d query (int k * step)
                        (int k * step + int (length query))
      then Some (window_score fuzzy_alg case_sensitive d query (int k * step)
                   (int k * step + int (length query)))
      else None)"
  unfolding scan_table_def scan_windows_def
  using map_of_filter_upt [of "\<lambda>kv. snd kv \<ge> min_ratio" 0
      "\<lambda>k. window_score fuzzy_alg case_sensitive d query (int k * step)
                   (int k * step + int (length query))" "scan_count (length d) (length query) step 0" k]
  by simp

lemma scan_table_keys:
  assumes "(i, sc) \<in> set (scan_table fuzzy_alg d query min_ratio case_sensitive step)"
  shows "\<exists>k < scan_count (length d) (length query) step 0. i = int k \<and> min_ratio \<le> sc \<and>
           sc = window_score fuzzy_alg case_sensitive d query (int k * step)
                  (int k * step + int (length query))"
  using assms unfolding scan_table_def scan_windows_def by auto

text \<open>
  Claim C5. The scan returns unless \<open>step \<le> 0\<close> and the loop condition holds at
  \<open>m = 0\<close>; then it never returns. When it returns, it has evaluated exactly the windows
  starting at \<open>k * step\<close> for the \<open>k\<close> below \<open>scan_count\<close>, which for a positive step
  are the \<open>k\<close> with \<open>k * step + len(query) - step \<le> len(doc) - 1\<close>. The table maps the
  index \<open>k\<close> of such a window to its score if and only if the score is at least
  \<open>min_ratio\<close>, and has no entry under any other key.
\<close>

theorem scan_doc_table:
  "scan_doc d query fuzzy_alg min_ratio case_sensitive step =
     (if step \<le> 0 \<and> int (length query) - step \<le> int (length d) - 1 then None
      else Some (scan_table fuzzy_alg d query min_ratio case_sensitive step))
   \<and> (0 < step \<longrightarrow>
        (\<forall>k. k < scan_count (length d) (length query) step 0 \<longleftrightarrow>
               int k * step + int (length query) - step \<le> int (length d) - 1))
   \<and> (\<forall>k. map_of (scan_table fuzzy_alg d query min_ratio case_sensitive step) (int k) =
          (if k < scan_count (length d) (length query) step 0 \<and>
              min_ratio \<le> window_score fuzzy_alg case_sensitive d query (int k * step)
                             (int k * step + int (length query))
           then Some (window_score fuzzy_alg case_sensitive d query (int k * step)
                        (int k * step + int (length query)))
           else None))
   \<and> (\<forall>i sc. (i, sc) \<in> set (scan_table fuzzy_alg d query min_ratio case_sensitive step) \<longrightarrow>
          (\<exists>k < scan_count (length d) (length query) step 0. i = int k))"
proof (intro conjI allI impI)
  show "scan_doc d query fuzzy_alg min_ratio case_sensitive step =
     (if step \<le> 0 \<and> int (length query) - step \<le> int (length d) - 1 then None
      else Some (scan_table fuzzy_alg d query min_ratio case_sensitive step))"
    by (rule scan_doc_cases)
next
  fix k assume "0 < step"
  from scan_count_iff [OF this, of k "length d" "length query" 0]
  show "k < scan_count (length d) (length query) step 0 \<longleftrightarrow>
        int k * step + int (length query) - step \<le> int (length d) - 1" by simp
next
  fix k
  show "map_of (scan_table fuzzy_alg d query min_ratio case_sensitive step) (int k) =
          (if k < scan_count (length d) (length query) step 0 \<and>
              min_ratio \<le> window_score fuzzy_alg case_sensitive d query (int k * step)
                             (int k * step + int (length query))
           then Some (window_score fuzzy_alg case_sensitive d query (int k * step)
                        (int k * step + int (length query)))
           else None)"
    by (rule scan_table_lookup)
next
  fix i sc assume "(i, sc) \<in> set (scan_table fuzzy_alg d query min_ratio case_sensitive step)"
  from scan_table_keys [OF this]
  show "\<exists>k < scan_count (length d) (length query) step 0. i = int k" by blast
qed

theorem scan_doc_table_witness:
  "(0::int) < 2 \<and>
   scan_doc (words ''a b c d e'') (words ''c d'') simple_ratio 50 False 2 = Some [(1, 100)] \<and>
   scan_count 5 2 2 0 = 3 \<and>
   (2 < scan_count 5 2 2 0 \<longleftrightarrow> int 2 * 2 + int 2 - 2 \<le> int 5 - 1) \<and>
   map_of (scan_table simple_ratio (words ''a b c d e'') (words ''c d'') 50 False 2) (int 0) = None"
proof -
  have l: "length (words ''a b c d e'') = 5" "length (words ''c d'') = 2" by code_simp+
  have t: "scan_table simple_ratio (words ''a b c d e'') (words ''c d'') 50 False 2 = [(1, 100)]"
    by code_simp
  have c: "scan_count 5 2 2 0 = 3" by code_simp
  show ?thesis
    using scan_doc_table [of "words ''a b c d e''" "words ''c d''" simple_ratio 50 False 2]
    unfolding l t c by simp
qed

subsection \<open>A document shorter than the query\<close>

lemma get_fuzzy_alg_registered:
  "map_of (fuzzy_algs eng) name = Some fuzzy_alg \<Longrightarrow>
   get_fuzzy_alg eng name case_sensitive = Inr fuzzy_alg"
  by (simp add: get_fuzzy_alg_def)

lemma multi_match_of_empty:
  "multi_match_of eng d query max_results fuzzy_alg min_ratio case_sensitive step flex [] = Inr []"
  by (simp add: multi_match_of_def indice_maxes_def filter_overlapping_matches_def)

text \<open>
  Claim C9. With \<open>step = 1\<close> and a document of fewer tokens than the query, the scan
  loop makes no pass, the score table is empty, and \<open>multi_match\<close> (called with a
  registered algorithm name) returns the empty list; it does not raise.
\<close>

theorem multi_match_short_doc:
  assumes "length d < length (nlp eng query_str)"
    and "map_of (fuzzy_algs eng) name = Some fuzzy_alg"
  shows "scan_count (length d) (length (nlp eng query_str)) 1 0 = 0
       \<and> scan_doc d (nlp eng query_str) fuzzy_alg min_ratio case_sensitive 1 = Some []
       \<and> multi_match eng d query_str max_results name min_ratio case_sensitive 1 flex = Some (Inr [])"
proof -
  have c: "\<not> int (length (nlp eng query_str)) - 1 \<le> int (length d) - 1"
    using assms(1) by simp
  then have n: "scan_count (length d) (length (nlp eng query_str)) 1 0 = 0"
    by (simp add: scan_count_def)
  have s: "scan_doc d (nlp eng query_str) fuzzy_alg min_ratio case_sensitive 1 = Some []"
    using c by (rule scan_doc_stops_at_once)
  have "multi_match eng d query_str max_results name min_ratio case_sensitive 1 flex = Some (Inr [])"
    unfolding multi_match_def Let_def
    by (simp add: get_fuzzy_alg_registered [OF assms(2)] s multi_match_of_empty)
  with n s show ?thesis by simp
qed

theorem multi_match_short_doc_witness:
  "length (words ''quick'') < length (nlp demo_engine ''quick brown'')
   \<and> map_of (fuzzy_algs demo_engine) ''simple'' = Some simple_ratio
   \<and> multi_match demo_engine (words ''quick'') ''quick brown'' 3 ''simple'' 70 False 1 1 = Some (Inr [])"
proof -
  have a: "length (words ''quick'') < length (nlp demo_engine ''quick brown'')" by code_simp
  have b: "map_of (fuzzy_algs demo_engine) ''simple'' = Some simple_ratio"
    by (simp add: fuzzy_algs_def demo_engine_def demo_fuzz_def)
  from multi_match_short_doc [OF a b, of 70 False 3 1] a b show ?thesis by simp
qed

subsection \<open>No window reaches the threshold\<close>

lemma best_match_of_empty:
  "best_match_of eng d query fuzzy_alg min_ratio case_sensitive step flex [] = Inl ValueError"
  by (simp add: best_match_of_def)

lemma scan_table_empty:
  assumes "\<forall>k < scan_count (length d) (length query) step 0.
             window_score fuzzy_alg case_sensitive d query (int k * step)
               (int k * step + int (length query)) < min_ratio"
  shows "scan_table fuzzy_alg d query min_ratio case_sensitive step = []"
  using assms unfolding scan_table_def scan_windows_def
  by (auto simp: filter_empty_conv)

lemma best_match_empty_table:
  assumes "map_of (fuzzy_algs eng) name = Some fuzzy_alg"
    and "0 < step"
    and "\<forall>k < scan_count (length d) (length (nlp eng query_str)) step 0.
           window_score fuzzy_alg case_sensitive d (nlp eng query_str) (int k * step)
             (int k * step + int (length (nlp eng query_str))) < min_ratio"
  shows "best_match eng d query_str name min_ratio case_sensitive step flex = Some (Inl ValueError)"
  unfolding best_match_def Let_def
  using assms(2)
  by (simp add: get_fuzzy_alg_registered [OF assms(1)] scan_doc_cases
      scan_table_empty [OF assms(3)] best_match_of_empty)

text \<open>
  Claim C1 says that \<open>best_match\<close> returns \<open>None\<close> when no scanned window reaches
  \<open>min_ratio\<close>. It does not: the table is then empty, \<open>_index_max\<close> takes \<open>max\<close> of
  an empty sequence, and \<open>best_match\<close> raises \<open>ValueError\<close>. The theorem states what
  the function does for a positive step and a registered algorithm name.
\<close>

theorem best_match_no_window_raises:
  assumes "map_of (fuzzy_algs eng) name = Some fuzzy_alg"
    and "0 < step"
    and "\<forall>k < scan_count (length d) (length (nlp eng query_str)) step 0.
           window_score fuzzy_alg case_sensitive d (nlp eng query_str) (int k * step)
             (int k * step + int (length (nlp eng query_str))) < min_ratio"
  shows "best_match eng d query_str name min_ratio case_sensitive step flex = Some (Inl ValueError)"
  using assms by (rule best_match_empty_table)

lemma best_match_out_of_range_ratio:
  assumes "map_of (fuzzy_algs eng) name = Some fuzzy_alg"
    and "0 < step"
    and "\<And>a b. fuzzy_alg a b \<le> 100"
    and "100 < min_ratio"
  shows "best_match eng d query_str name min_ratio case_sensitive step flex = Some (Inl ValueError)"
proof (rule best_match_empty_table [OF assms(1,2)], intro allI impI)
  fix k
  have "window_score fuzzy_alg case_sensitive d (nlp eng query_str) (int k * step)
             (int k * step + int (length (nlp eng query_str))) \<le> 100"
    unfolding window_score_def match_def using assms(3) by simp
  with assms(4) show "window_score fuzzy_alg case_sensitive d (nlp eng query_str) (int k * step)
             (int k * step + int (length (nlp eng query_str))) < min_ratio" by simp
qed

theorem best_match_no_window_raises_witness:
  "best_match demo_engine (words ''hello there'') ''world'' ''simple'' 101 False 1 1
     = Some (Inl ValueError)"
proof -
  have b: "map_of (fuzzy_algs demo_engine) ''simple'' = Some simple_ratio"
    by (simp add: fuzzy_algs_def demo_engine_def demo_fuzz_def)
  have n: "scan_count (length (words ''hello there'')) (length (nlp demo_engine ''world'')) 1 0 = 2"
    by code_simp
  have w0: "window_score simple_ratio False (words ''hello there'') (nlp demo_engine ''world'') 0
               (0 + int (length (nlp demo_engine ''world''))) < 101" by code_simp
  have w1: "window_score simple_ratio False (words ''hello there'') (nlp demo_engine ''world'') 1
               (1 + int (length (nlp demo_engine ''world''))) < 101" by code_simp
  have h: "\<forall>k < scan_count (length (words ''hello there'')) (length (nlp demo_engine ''world'')) 1 0.
           window_score simple_ratio False (words ''hello there'') (nlp demo_engine ''world'') (int k * 1)
             (int k * 1 + int (length (nlp demo_engine ''world''))) < 101"
    unfolding n using w0 w1 by (auto simp: less_Suc_eq numeral_2_eq_2)
  show ?thesis
    by (rule best_match_no_window_raises [OF b _ h]) simp
qed

subsection \<open>Flex normalisation\<close>

lemma calc_flex_full: "calc_flex (int (length query)) query = 1"
  by (simp add: calc_flex_def)

lemma calc_flex_one: "calc_flex 1 query = 1"
  by (simp add: calc_flex_def)

text \<open>
  Claim C7. \<open>_calc_flex\<close> resets \<open>flex\<close> to 1 when \<open>flex \<ge> len(query) / 2\<close> and
  leaves it alone otherwise. A call with \<open>flex = len(query)\<close> therefore refines with the
  same radius as a call with \<open>flex = 1\<close>, and \<open>best_match\<close> and \<open>multi_match\<close> give
  the same result for both, whatever the other arguments are.
\<close>

theorem flex_normalization:
  "(2 * flex \<ge> int (length query) \<longrightarrow> calc_flex flex query = 1)
   \<and> (2 * flex < int (length query) \<longrightarrow> calc_flex flex query = flex)
   \<and> calc_flex (int (length query)) query = calc_flex 1 query
   \<and> adjust_left_right_positions eng d query match_values fuzzy_alg case_sensitive pos step
        (calc_flex (int (length query)) query)
      = adjust_left_right_positions eng d query match_values fuzzy_alg case_sensitive pos step
        (calc_flex 1 query)
   \<and> best_match eng d query_str name min_ratio case_sensitive step
        (int (length (nlp eng query_str)))
      = best_match eng d query_str name min_ratio case_sensitive step 1
   \<and> multi_match eng d query_str max_results name min_ratio case_sensitive step
        (int (length (nlp eng query_str)))
      = multi_match eng d query_str max_results name min_ratio case_sensitive step 1"
  by (simp add: best_match_def multi_match_def Let_def calc_flex_full calc_flex_one
        cong: sum.case_cong)
     (simp add: calc_flex_def)

theorem flex_normalization_witness:
  "2 * (3::int) \<ge> int (length (words ''a b c d e'')) \<and> calc_flex 3 (words ''a b c d e'') = 1
   \<and> 2 * (2::int) < int (length (words ''a b c d e'')) \<and> calc_flex 2 (words ''a b c d e'') = 2"
proof -
  have l: "length (words ''a b c d e'') = 5" by code_simp
  show ?thesis
    using flex_normalization [where flex = 3 and query = "words ''a b c d e''"]
          flex_normalization [where flex = 2 and query = "words ''a b c d e''"]
    unfolding l by simp
qed

subsection \<open>Ignore-rule trimming\<close>

lemma enforce_left_loop_within:
  assumes "- int (length d) \<le> b_l" "b_l < b_r" "b_r \<le> int (length d)"
  shows "\<exists>l. enforce_left_loop funcs d b_l b_r = Inr l \<and> b_l \<le> l \<and> l < b_r"
  using assms
proof (induction funcs d b_l b_r rule: enforce_left_loop.induct)
  case (1 funcs d b_l b_r)
  have v: "valid_index d b_l" using "1.prems" by (simp add: valid_index_def)
  show ?case
  proof (cases "funcs \<noteq> [] \<and> any_ignore funcs (d ! position d b_l) \<and> b_l \<noteq> b_r - 1")
    case True
    then have "\<exists>l. enforce_left_loop funcs d (b_l + 1) b_r = Inr l \<and> b_l + 1 \<le> l \<and> l < b_r"
      using "1.IH" v "1.prems" by simp
    then obtain l where "enforce_left_loop funcs d (b_l + 1) b_r = Inr l" "b_l + 1 \<le> l" "l < b_r"
      by blast
    then show ?thesis using True v
      by (subst enforce_left_loop.simps) simp
  next
    case False
    then show ?thesis using v "1.prems"
      by (subst enforce_left_loop.simps) auto
  qed
qed

lemma enforce_right_loop_within:
  assumes "- int (length d) \<le> b_l" "b_l \<le> b_r" "b_r < int (length d)"
  shows "\<exists>r. enforce_right_loop funcs d b_l b_r = Inr r \<and> b_l \<le> r \<and> r \<le> b_r"
  using assms
proof (induction funcs d b_l b_r rule: enforce_right_loop.induct)
  case (1 funcs d b_l b_r)
  have v: "valid_index d b_r" using "1.prems" by (simp add: valid_index_def)
  show ?case
  proof (cases "funcs \<noteq> [] \<and> any_ignore funcs (d ! position d b_r) \<and> b_r \<noteq> b_l")
    case True
    then have "\<exists>r. enforce_right_loop funcs d b_l (b_r - 1) = Inr r \<and> b_l \<le> r \<and> r \<le> b_r - 1"
      using "1.IH" v "1.prems" by simp
    then obtain r where "enforce_right_loop funcs d b_l (b_r - 1) = Inr r" "b_l \<le> r" "r \<le> b_r - 1"
      by blast
    then show ?thesis using True v
      by (subst enforce_right_loop.simps) simp
  next
    case False
    then show ?thesis using v "1.prems"
      by (subst enforce_right_loop.simps) auto
  qed
qed

lemma enforce_rules_within:
  assumes "- int (length d) \<le> b_l" "b_l < b_r" "b_r \<le> int (length d)"
  shows "\<exists>l r. enforce_rules eng d b_l b_r = Inr (l, r) \<and> b_l \<le> l \<and> l < r \<and> r \<le> b_r"
proof -
  have "\<exists>l. enforce_left eng d b_l b_r = Inr l \<and> b_l \<le> l \<and> l < b_r"
    using enforce_left_loop_within [OF assms] assms by (simp add: enforce_left_def)
  then obtain l where l: "enforce_left eng d b_l b_r = Inr l" "b_l \<le> l" "l < b_r" by blast
  have "\<exists>r. enforce_right eng d l b_r = Inr r \<and> l < r \<and> r \<le> b_r"
  proof (cases "ignores eng \<noteq> [] \<or> right_ignores eng \<noteq> []")
    case True
    from enforce_right_loop_within [where b_l = l and b_r = "b_r - 1" and d = d
        and funcs = "ignore_funcs (ignores eng) (right_ignores eng)"]
      l assms
    obtain r where "enforce_right_loop (ignore_funcs (ignores eng) (right_ignores eng)) d l (b_r - 1) = Inr r"
      "l \<le> r" "r \<le> b_r - 1" by auto
    with True show ?thesis by (simp add: enforce_right_def)
  next
    case False
    with l show ?thesis by (simp add: enforce_right_def)
  qed
  then obtain r where "enforce_right eng d l b_r = Inr r" "l < r" "r \<le> b_r" by blast
  with l show ?thesis by (simp add: enforce_rules_def)
qed

text \<open>
  Claim C10. For boundaries \<open>0 \<le> b_l < b_r \<le> len(doc)\<close>, \<open>_enforce_rules\<close> returns
  (it does not raise) a pair \<open>(l, r)\<close> with \<open>b_l \<le> l < r \<le> b_r\<close>: the trimmed span
  is a non-empty part of the span it was given.
\<close>

theorem enforce_rules_subrange:
  assumes "0 \<le> b_l" "b_l < b_r" "b_r \<le> int (length d)"
  shows "\<exists>l r. enforce_rules eng d b_l b_r = Inr (l, r) \<and> b_l \<le> l \<and> l < r \<and> r \<le> b_r"
  using assms by (intro enforce_rules_within) simp_all

theorem enforce_rules_subrange_witness:
  "(0::int) \<le> 0 \<and> (0::int) < 4 \<and> 4 \<le> int (length (words ''the big cat .''))
   \<and> enforce_rules demo_engine (words ''the big cat .'') 0 4 = Inr (1, 3)
   \<and> (\<exists>l r. enforce_rules demo_engine (words ''the big cat .'') 0 4 = Inr (l, r)
         \<and> 0 \<le> l \<and> l < r \<and> r \<le> 4)"
proof -
  have l: "4 \<le> int (length (words ''the big cat .''))" by code_simp
  have e: "enforce_rules demo_engine (words ''the big cat .'') 0 4 = Inr (1, 3)" by code_simp
  from enforce_rules_subrange [OF _ _ l, where b_l = 0 and eng = demo_engine] l e
  show ?thesis by simp
qed

subsection \<open>The refinement loop\<close>

lemma flex_range_mem: "f \<in> set (flex_range flex) \<longleftrightarrow> 0 \<le> f \<and> f < flex"
proof
  assume "f \<in> set (flex_range flex)"
  then show "0 \<le> f \<and> f < flex" by (auto simp: flex_range_def)
next
  assume a: "0 \<le> f \<and> f < flex"
  then have "nat f < nat flex" "f = int (nat f)" by simp_all
  then show "f \<in> set (flex_range flex)" unfolding flex_range_def
    by (metis atLeastLessThan_iff atLeastLessThan_upt image_eqI le0 set_map)
qed

lemma flex_step_sides:
  "bp_l (flex_step score p_l p_r f s) =
     fst (strict_best [(p_l - f, score (p_l - f) p_r), (p_l + f, score (p_l + f) p_r)] (bp_l s, bmv_l s))"
  "bmv_l (flex_step score p_l p_r f s) =
     snd (strict_best [(p_l - f, score (p_l - f) p_r), (p_l + f, score (p_l + f) p_r)] (bp_l s, bmv_l s))"
  "bp_r (flex_step score p_l p_r f s) =
     fst (strict_best [(p_r - f, score p_l (p_r - f)), (p_r + f, score p_l (p_r + f))] (bp_r s, bmv_r s))"
  "bmv_r (flex_step score p_l p_r f s) =
     snd (strict_best [(p_r - f, score p_l (p_r - f)), (p_r + f, score p_l (p_r + f))] (bp_r s, bmv_r s))"
  by (simp_all add: flex_step_def strict_best_def Let_def)

lemma strict_best_append:
  "strict_best (xs @ ys) b = strict_best ys (strict_best xs b)"
  by (simp add: strict_best_def)

lemma fold_flex_step:
  "(bp_l (fold (flex_step score p_l p_r) fs s), bmv_l (fold (flex_step score p_l p_r) fs s)) =
      strict_best (left_candidates score p_l p_r fs) (bp_l s, bmv_l s)
   \<and> (bp_r (fold (flex_step score p_l p_r) fs s), bmv_r (fold (flex_step score p_l p_r) fs s)) =
      strict_best (right_candidates score p_l p_r fs) (bp_r s, bmv_r s)"
proof (induction fs arbitrary: s)
  case Nil
  show ?case by (simp add: left_candidates_def right_candidates_def strict_best_def)
next
  case (Cons f fs)
  have l: "left_candidates score p_l p_r (f # fs) =
        [(p_l - f, score (p_l - f) p_r), (p_l + f, score (p_l + f) p_r)] @ left_candidates score p_l p_r fs"
    by (simp add: left_candidates_def)
  have r: "right_candidates score p_l p_r (f # fs) =
        [(p_r - f, score p_l (p_r - f)), (p_r + f, score p_l (p_r + f))] @ right_candidates score p_l p_r fs"
    by (simp add: right_candidates_def)
  show ?case
    unfolding l r strict_best_append
    using Cons.IH [of "flex_step score p_l p_r f s"]
    by (simp add: flex_step_sides)
qed

lemma strict_best_first_max:
  "\<exists>xs ys. start # cands = xs @ strict_best cands start # ys
      \<and> (\<forall>x \<in> set xs. snd x < snd (strict_best cands start))
      \<and> (\<forall>y \<in> set ys. snd y \<le> snd (strict_best cands start))"
proof (induction cands rule: rev_induct)
  case Nil
  show ?case by (intro exI [of _ "[]"]) (simp add: strict_best_def)
next
  case (snoc c cands)
  then obtain xs ys where d: "start # cands = xs @ strict_best cands start # ys"
    and x: "\<forall>x \<in> set xs. snd x < snd (strict_best cands start)"
    and y: "\<forall>y \<in> set ys. snd y \<le> snd (strict_best cands start)" by blast
  have step: "strict_best (cands @ [c]) start =
      (if snd c > snd (strict_best cands start) then c else strict_best cands start)"
    by (simp add: strict_best_def)
  show ?case
  proof (cases "snd c > snd (strict_best cands start)")
    case True
    have "start # cands @ [c] = (start # cands) @ c # []" by simp
    moreover have "\<forall>x \<in> set (start # cands). snd x < snd c"
    proof
      fix z assume "z \<in> set (start # cands)"
      then have "z \<in> set xs \<or> z = strict_best cands start \<or> z \<in> set ys"
        unfolding d by auto
      with True x y show "snd z < snd c" by fastforce
    qed
    ultimately have "start # cands @ [c] = (start # cands) @ c # []
        \<and> (\<forall>x \<in> set (start # cands). snd x < snd c) \<and> (\<forall>y \<in> set []. snd y \<le> snd c)"
      by simp
    then show ?thesis unfolding step using True by (simp only: if_True) blast
  next
    case False
    have "start # cands @ [c] = xs @ strict_best cands start # (ys @ [c])" using d by simp
    moreover have "\<forall>y \<in> set (ys @ [c]). snd y \<le> snd (strict_best cands start)"
      using False y by auto
    ultimately have "start # cands @ [c] = xs @ strict_best cands start # (ys @ [c])
        \<and> (\<forall>x \<in> set xs. snd x < snd (strict_best cands start))
        \<and> (\<forall>y \<in> set (ys @ [c]). snd y \<le> snd (strict_best cands start))"
      using x by simp
    then show ?thesis unfolding step using False by (simp only: if_False) blast
  qed
qed

lemma strict_best_tie:
  "(\<forall>c \<in> set cands. snd c \<le> snd start) \<Longrightarrow> strict_best cands start = start"
  by (induction cands) (auto simp: strict_best_def)


text \<open>
  Claim C6. The loop of \<open>_adjust_left_right_positions\<close> runs over the radii
  \<open>0 \<le> f < flex\<close>. Its left pair (boundary, score) is the strict-improvement search over
  the windows \<open>(p_l - f, p_r)\<close>, \<open>(p_l + f, p_r)\<close> started at \<open>(p_l, base)\<close>, its right
  pair the same search over \<open>(p_l, p_r - f)\<close>, \<open>(p_l, p_r + f)\<close> started at
  \<open>(p_r, base)\<close>: neither looks at the other edge. Such a search ends at the first
  candidate of maximal score (all earlier ones are strictly worse, no later one is
  better), and it keeps its start when no candidate is strictly better.
\<close>

theorem flex_loop_strict_best:
  "(\<forall>f. f \<in> set (flex_range flex) \<longleftrightarrow> 0 \<le> f \<and> f < flex)
   \<and> (bp_l (flex_loop score p_l p_r base flex), bmv_l (flex_loop score p_l p_r base flex)) =
        strict_best (left_candidates score p_l p_r (flex_range flex)) (p_l, base)
   \<and> (bp_r (flex_loop score p_l p_r base flex), bmv_r (flex_loop score p_l p_r base flex)) =
        strict_best (right_candidates score p_l p_r (flex_range flex)) (p_r, base)
   \<and> (\<forall>cands start. \<exists>xs ys. start # cands = xs @ strict_best cands start # ys
          \<and> (\<forall>x \<in> set xs. snd x < snd (strict_best cands start))
          \<and> (\<forall>y \<in> set ys. snd y \<le> snd (strict_best cands start)))
   \<and> (\<forall>cands start. (\<forall>c \<in> set cands. snd c \<le> snd start) \<longrightarrow> strict_best cands start = start)"
proof (intro conjI allI impI)
  fix f show "f \<in> set (flex_range flex) \<longleftrightarrow> 0 \<le> f \<and> f < flex" by (rule flex_range_mem)
next
  show "(bp_l (flex_loop score p_l p_r base flex), bmv_l (flex_loop score p_l p_r base flex)) =
        strict_best (left_candidates score p_l p_r (flex_range flex)) (p_l, base)"
    unfolding flex_loop_def
    using fold_flex_step [of score p_l p_r "flex_range flex"
        "\<lparr>bp_l = p_l, bmv_l = base, bp_r = p_r, bmv_r = base\<rparr>"]
    by simp
next
  show "(bp_r (flex_loop score p_l p_r base flex), bmv_r (flex_loop score p_l p_r base flex)) =
        strict_best (right_candidates score p_l p_r (flex_range flex)) (p_r, base)"
    unfolding flex_loop_def
    using fold_flex_step [of score p_l p_r "flex_range flex"
        "\<lparr>bp_l = p_l, bmv_l = base, bp_r = p_r, bmv_r = base\<rparr>"]
    by simp
next
  fix cands :: "(int \<times> int) list" and start :: "int \<times> int"
  show "\<exists>xs ys. start # cands = xs @ strict_best cands start # ys
          \<and> (\<forall>x \<in> set xs. snd x < snd (strict_best cands start))
          \<and> (\<forall>y \<in> set ys. snd y \<le> snd (strict_best cands start))"
    by (rule strict_best_first_max)
next
  fix cands :: "(int \<times> int) list" and start :: "int \<times> int"
  assume "\<forall>c \<in> set cands. snd c \<le> snd start"
  then show "strict_best cands start = start" by (rule strict_best_tie)
qed

theorem flex_loop_strict_best_witness:
  "left_candidates (window_score simple_ratio False (words ''x y z w hello'') (words ''hello b c d e''))
      0 5 (flex_range 2) = [(0, 38), (0, 38), (- 1, 56), (1, 42)]
   \<and> bp_l (flex_loop (window_score simple_ratio False (words ''x y z w hello'') (words ''hello b c d e''))
            0 5 38 2) = - 1
   \<and> bmv_l (flex_loop (window_score simple_ratio False (words ''x y z w hello'') (words ''hello b c d e''))
            0 5 38 2) = 56
   \<and> strict_best [(5, 38), (4, 30), (6, 38)] (5, 38) = (5, 38)"
proof -
  have lc: "left_candidates (window_score simple_ratio False (words ''x y z w hello'') (words ''hello b c d e''))
      0 5 (flex_range 2) = [(0, 38), (0, 38), (- 1, 56), (1, 42)]"
    by code_simp
  have sb: "strict_best [(0, 38), (0, 38), (- 1, 56), (1, 42)] (0, 38) = (- 1, 56)"
    by (simp add: strict_best_def)
  have tie: "\<forall>c \<in> set [(5, 38), (4, 30), (6, 38)]. snd c \<le> snd (5 :: int, 38 :: int)"
    by simp
  show ?thesis
    using flex_loop_strict_best [where score = "window_score simple_ratio False
        (words ''x y z w hello'') (words ''hello b c d e'')" and p_l = 0 and p_r = 5 and base = 38
        and flex = 2] tie
    unfolding lc sb
    by (simp add: prod_eq_iff)
qed

subsection \<open>The results of \<open>multi_match\<close>\<close>

lemma token_range_set: "set (token_range a b) = {a..<b}"
  by (auto simp: token_range_def)

lemma shares_index_iff:
  "shares_index m filtered \<longleftrightarrow> (\<exists>n \<in> set filtered. \<not> disjoint_ranges n m)"
  unfolding shares_index_def disjoint_ranges_def list_ex_iff List.member_iff token_range_set
  by blast

lemma fold_filter_step_disjoint:
  "sorted_wrt disjoint_ranges acc \<Longrightarrow>
   sorted_wrt disjoint_ranges
     (fold (\<lambda>m filtered. if \<not> shares_index m filtered then filtered @ [m] else filtered) ms acc)"
proof (induction ms arbitrary: acc)
  case Nil
  then show ?case by simp
next
  case (Cons m ms)
  show ?case
  proof (cases "shares_index m acc")
    case True
    then show ?thesis using Cons by simp
  next
    case False
    then have "sorted_wrt disjoint_ranges (acc @ [m])"
      using Cons.prems by (auto simp: sorted_wrt_append shares_index_iff)
    from Cons.IH [OF this] False show ?thesis by simp
  qed
qed

lemma fold_filter_step_sorted:
  "sorted_wrt R (acc @ ms) \<Longrightarrow>
   sorted_wrt R
     (fold (\<lambda>m filtered. if \<not> shares_index m filtered then filtered @ [m] else filtered) ms acc)"
proof (induction ms arbitrary: acc)
  case Nil
  then show ?case by simp
next
  case (Cons m ms)
  have a: "sorted_wrt R ((acc @ [m]) @ ms)" using Cons.prems by simp
  have b: "sorted_wrt R (acc @ ms)" using Cons.prems by (auto simp: sorted_wrt_append)
  show ?case
    using Cons.IH [OF a] Cons.IH [OF b] by simp
qed

lemma fold_filter_step_subset:
  "set (fold (\<lambda>m filtered. if \<not> shares_index m filtered then filtered @ [m] else filtered) ms acc)
     \<subseteq> set acc \<union> set ms"
proof (induction ms arbitrary: acc)
  case Nil
  show ?case by simp
next
  case (Cons m ms)
  show ?case
    using Cons.IH [of "acc @ [m]"] Cons.IH [of acc] by auto
qed

lemma filter_overlapping_disjoint:
  "sorted_wrt disjoint_ranges (filter_overlapping_matches ms)"
  unfolding filter_overlapping_matches_def by (rule fold_filter_step_disjoint) simp

lemma filter_overlapping_sorted:
  "sorted_wrt R ms \<Longrightarrow> sorted_wrt R (filter_overlapping_matches ms)"
  unfolding filter_overlapping_matches_def by (rule fold_filter_step_sorted) simp

lemma filter_overlapping_subset:
  "set (filter_overlapping_matches ms) \<subseteq> set ms"
  unfolding filter_overlapping_matches_def using fold_filter_step_subset [of ms "[]"] by simp

lemma disjoint_ranges_sym: "disjoint_ranges a b \<Longrightarrow> disjoint_ranges b a"
  by (auto simp: disjoint_ranges_def)

lemma sorted_wrt_disjoint_nth:
  assumes "sorted_wrt disjoint_ranges ms" "i < length ms" "j < length ms" "i \<noteq> j"
  shows "disjoint_ranges (ms ! i) (ms ! j)"
proof (cases "i < j")
  case True
  with assms show ?thesis by (simp add: sorted_wrt_iff_nth_less)
next
  case False
  with assms have "j < i" by simp
  with assms have "disjoint_ranges (ms ! j) (ms ! i)" by (simp add: sorted_wrt_iff_nth_less)
  then show ?thesis by (rule disjoint_ranges_sym)
qed

lemma sort_key_desc_score:
  "sorted_wrt (\<lambda>a b. m_score a \<ge> m_score b) (sort_key (\<lambda>m. - m_score m) ms)"
proof -
  have "sorted (map (\<lambda>m. - m_score m) (sort_key (\<lambda>m. - m_score m) ms))"
    by (rule sorted_sort_key)
  then show ?thesis by (simp add: sorted_map)
qed

lemma m_score_to_match: "m_score (to_match d t) = snd (snd t)"
  by (cases t) (simp add: to_match_def m_score_def)

lemma m_bounds_to_match: "m_start (to_match d t) = fst t" "m_end (to_match d t) = fst (snd t)"
  by (cases t; simp add: to_match_def m_start_def m_end_def)+

lemma multi_match_of_result:
  assumes "multi_match_of eng d query max_results fuzzy_alg min_ratio case_sensitive step flex tbl = Inr ms"
  shows "sorted_wrt disjoint_ranges ms"
    and "sorted_wrt (\<lambda>a b. m_score a \<ge> m_score b) ms"
    and "\<forall>m \<in> set ms. m_score m \<ge> min_ratio"
proof -
  from assms obtain ts where
    ms: "ms = filter_overlapping_matches
                 (sort_key (\<lambda>m. - m_score m)
                    (map (to_match d) (filter (\<lambda>t. snd (snd t) \<ge> min_ratio) ts)))"
    by (auto simp: multi_match_of_def Let_def split: sum.splits)
  show "sorted_wrt disjoint_ranges ms" unfolding ms by (rule filter_overlapping_disjoint)
  show "sorted_wrt (\<lambda>a b. m_score a \<ge> m_score b) ms" unfolding ms
    by (rule filter_overlapping_sorted) (rule sort_key_desc_score)
  show "\<forall>m \<in> set ms. m_score m \<ge> min_ratio"
  proof
    fix m assume "m \<in> set ms"
    then have "m \<in> set (map (to_match d) (filter (\<lambda>t. snd (snd t) \<ge> min_ratio) ts))"
      unfolding ms using filter_overlapping_subset by fastforce
    then show "m_score m \<ge> min_ratio" by (auto simp: m_score_to_match)
  qed
qed

lemma multi_match_unfold:
  assumes "multi_match eng d query_str max_results name min_ratio case_sensitive step flex = Some (Inr ms)"
  shows "\<exists>fuzzy_alg tbl.
           get_fuzzy_alg eng name case_sensitive = Inr fuzzy_alg
         \<and> scan_doc d (nlp eng query_str) fuzzy_alg min_ratio case_sensitive step = Some tbl
         \<and> multi_match_of eng d (nlp eng query_str) max_results fuzzy_alg min_ratio case_sensitive
              step (calc_flex flex (nlp eng query_str)) tbl = Inr ms"
  using assms by (auto simp: multi_match_def Let_def split: sum.splits)

text \<open>
  Claim C4. In every list \<open>multi_match\<close> returns, the index ranges
  \<open>range(start, end)\<close> of two different matches are disjoint, the scores do not increase
  along the list, and every score is at least \<open>min_ratio\<close>.
\<close>

theorem multi_match_result_invariants:
  assumes "multi_match eng d query_str max_results name min_ratio case_sensitive step flex = Some (Inr ms)"
  shows "(\<forall>i < length ms. \<forall>j < length ms. i \<noteq> j \<longrightarrow>
            {m_start (ms ! i)..<m_end (ms ! i)} \<inter> {m_start (ms ! j)..<m_end (ms ! j)} = {})
       \<and> sorted_wrt (\<lambda>a b. m_score a \<ge> m_score b) ms
       \<and> (\<forall>m \<in> set ms. m_score m \<ge> min_ratio)"
proof -
  from multi_match_unfold [OF assms] obtain fuzzy_alg tbl where
    r: "multi_match_of eng d (nlp eng query_str) max_results fuzzy_alg min_ratio case_sensitive
              step (calc_flex flex (nlp eng query_str)) tbl = Inr ms" by blast
  note res = multi_match_of_result [OF r]
  have "\<forall>i < length ms. \<forall>j < length ms. i \<noteq> j \<longrightarrow>
            {m_start (ms ! i)..<m_end (ms ! i)} \<inter> {m_start (ms ! j)..<m_end (ms ! j)} = {}"
    using sorted_wrt_disjoint_nth [OF res(1)] by (simp add: disjoint_ranges_def)
  with res(2,3) show ?thesis by simp
qed

theorem multi_match_result_invariants_witness:
  "multi_match demo_engine (words ''quick brown quikc fox quick'') ''quick'' 3 ''simple'' 70 False 1 1
     = Some (Inr [(doc_slice (words ''quick brown quikc fox quick'') 0 1, 0, 1, 100),
                  (doc_slice (words ''quick brown quikc fox quick'') 4 5, 4, 5, 100),
                  (doc_slice (words ''quick brown quikc fox quick'') 2 3, 2, 3, 80)])
   \<and> sorted_wrt (\<lambda>a b. m_score a \<ge> m_score b)
         [(doc_slice (words ''quick brown quikc fox quick'') 0 1, 0, 1, 100),
          (doc_slice (words ''quick brown quikc fox quick'') 4 5, 4, 5, 100),
          (doc_slice (words ''quick brown quikc fox quick'') 2 3, 2, 3, 80)]
   \<and> m_score (doc_slice (words ''quick brown quikc fox quick'') 2 3, 2, 3, 80) \<ge> 70
   \<and> {m_start (doc_slice (words ''quick brown quikc fox quick'') 0 1, 0, 1, 100)..<
        m_end (doc_slice (words ''quick brown quikc fox quick'') 0 1, 0, 1, 100)}
      \<inter> {m_start (doc_slice (words ''quick brown quikc fox quick'') 4 5, 4, 5, 100)..<
           m_end (doc_slice (words ''quick brown quikc fox quick'') 4 5, 4, 5, 100)} = {}"
proof -
  have e: "multi_match demo_engine (words ''quick brown quikc fox quick'') ''quick'' 3 ''simple'' 70 False 1 1
     = Some (Inr [(doc_slice (words ''quick brown quikc fox quick'') 0 1, 0, 1, 100),
                  (doc_slice (words ''quick brown quikc fox quick'') 4 5, 4, 5, 100),
                  (doc_slice (words ''quick brown quikc fox quick'') 2 3, 2, 3, 80)])"
    by code_simp
  note inv = multi_match_result_invariants [OF e]
  from inv [THEN conjunct1, rule_format, of 0 1]
  have d: "{m_start (doc_slice (words ''quick brown quikc fox quick'') 0 1, 0, 1, 100)..<
        m_end (doc_slice (words ''quick brown quikc fox quick'') 0 1, 0, 1, 100)}
      \<inter> {m_start (doc_slice (words ''quick brown quikc fox quick'') 4 5, 4, 5, 100)..<
           m_end (doc_slice (words ''quick brown quikc fox quick'') 4 5, 4, 5, 100)} = {}"
    by simp
  note s = inv [THEN conjunct2, THEN conjunct1]
  from inv [THEN conjunct2, THEN conjunct2]
  have "m_score (doc_slice (words ''quick brown quikc fox quick'') 2 3, 2, 3, 80) \<ge> 70"
    by simp
  with e s d show ?thesis by blast
qed

subsection \<open>Labelling without an overlap budget\<close>

lemma update_entities_no_budget:
  assumes "overlap_adjust rl = 0"
  shows "update_entities rl d ents sp label =
           Inr (if ents_conflict (ents @ [sp]) then ents
                else filter (\<lambda>s. span_range s \<noteq> []) (ents @ [sp]))"
  using assms by (simp add: update_entities_def ents_add_def)

lemma ents_ok_filter_id:
  "ents_ok ents \<Longrightarrow> filter (\<lambda>s. span_range s \<noteq> []) ents = ents"
  by (simp add: ents_ok_def list_all_iff)

lemma ents_ok_add:
  assumes "ents_ok ents" "\<not> ents_conflict (ents @ [sp])"
  shows "ents_ok (filter (\<lambda>s. span_range s \<noteq> []) (ents @ [sp]))"
proof (cases "span_range sp = []")
  case True
  with assms(1) show ?thesis by (simp add: ents_ok_filter_id)
next
  case False
  with assms show ?thesis
    by (simp add: ents_ok_filter_id) (simp add: ents_ok_def list_all_iff)
qed

lemma update_entities_keeps:
  assumes "overlap_adjust rl = 0" "ents_ok ents"
  shows "\<exists>ents'. update_entities rl d ents sp label = Inr ents' \<and> ents_ok ents'
            \<and> (\<exists>new. ents' = ents @ new)"
proof (cases "ents_conflict (ents @ [sp])")
  case True
  with assms show ?thesis by (simp add: update_entities_no_budget)
next
  case False
  have "\<exists>new. filter (\<lambda>s. span_range s \<noteq> []) (ents @ [sp]) = ents @ new"
    using assms(2) by (simp add: ents_ok_filter_id)
  with False assms ents_ok_add [OF assms(2) False] show ?thesis
    by (simp add: update_entities_no_budget)
qed

lemma iter_matches_keeps:
  assumes "overlap_adjust rl = 0"
  shows "ents_ok ents \<Longrightarrow> iter_matches rl d ents matches = Inr ents' \<Longrightarrow>
         ents_ok ents' \<and> (\<exists>new. ents' = ents @ new)"
proof (induction matches arbitrary: ents)
  case Nil
  then show ?case by simp
next
  case (Cons ml matches)
  obtain m label where ml: "ml = (m, label)" by (cases ml)
  from Cons.prems(2) obtain sp where sp: "Span d (m_start m) (m_end m) label = Inr sp"
    unfolding ml by (auto split: sum.splits)
  from update_entities_keeps [OF assms Cons.prems(1), of d sp label]
  obtain ents1 new1 where u: "update_entities rl d ents sp label = Inr ents1" "ents_ok ents1"
    "ents1 = ents @ new1" by blast
  from Cons.prems(2) have "iter_matches rl d ents1 matches = Inr ents'"
    unfolding ml by (simp add: sp u(1))
  from Cons.IH [OF u(2) this] u(3) show ?case by auto
qed

text \<open>
  Claim C8. With \<open>overlap_adjust = 0\<close>, a span whose registration conflicts with the
  entities already registered is dropped: \<open>_update_entities\<close> returns the entities as
  they were and does not raise. Over a whole labelling pass (\<open>_iter_matches\<close>,
  \<open>__call__\<close>) that returns, the entities the document had are all kept, in place, and
  the final collection has no token index in two spans.
\<close>

theorem labeling_without_budget:
  assumes "overlap_adjust rl = 0"
  shows "(ents_conflict (ents @ [sp]) \<longrightarrow> update_entities rl d ents sp label = Inr ents)
       \<and> (\<forall>ents'. ents_ok ents \<longrightarrow> iter_matches rl d ents matches = Inr ents' \<longrightarrow>
             \<not> ents_conflict ents' \<and> (\<exists>new. ents' = ents @ new))
       \<and> (\<forall>ents'. ents_ok ents \<longrightarrow> call rl d ents = Some (Inr ents') \<longrightarrow>
             \<not> ents_conflict ents' \<and> (\<exists>new. ents' = ents @ new))"
proof (intro conjI allI impI)
  assume "ents_conflict (ents @ [sp])"
  then show "update_entities rl d ents sp label = Inr ents"
    using assms by (simp add: update_entities_no_budget)
next
  fix ents' assume "ents_ok ents" "iter_matches rl d ents matches = Inr ents'"
  from iter_matches_keeps [OF assms this]
  show "\<not> ents_conflict ents'" "\<exists>new. ents' = ents @ new" by (simp_all add: ents_ok_def)
next
  fix ents' assume ok: "ents_ok ents" and c: "call rl d ents = Some (Inr ents')"
  from c obtain ms where "iter_matches rl d ents ms = Inr ents'"
    by (auto simp: call_def split: option.splits sum.splits)
  from iter_matches_keeps [OF assms ok this]
  show "\<not> ents_conflict ents'" "\<exists>new. ents' = ents @ new" by (simp_all add: ents_ok_def)
qed

theorem labeling_without_budget_witness:
  "overlap_adjust demo_ruler = 0
   \<and> ents_conflict ([(0, 2, ''A'')] @ [(1, 3, ''B'')])
   \<and> update_entities demo_ruler (words ''new york city'') [(0, 2, ''A'')] (1, 3, ''B'') ''B''
        = Inr [(0, 2, ''A'')]
   \<and> ents_ok []
   \<and> call demo_ruler (words ''new york city'') [] = Some (Inr [(0, 2, ''A'')])
   \<and> \<not> ents_conflict [(0, 2, ''A'')]"
proof -
  have b: "overlap_adjust demo_ruler = 0" by (simp add: demo_ruler_def)
  have c: "ents_conflict ([(0, 2, ''A'')] @ [(1, 3, ''B'')])" by code_simp
  have ok: "ents_ok []" by code_simp
  have e: "call demo_ruler (words ''new york city'') [] = Some (Inr [(0, 2, ''A'')])" by code_simp
  from labeling_without_budget [OF b, of "[(0, 2, ''A'')]" "(1, 3, ''B'')" "words ''new york city''" "''B''"] c
  have u: "update_entities demo_ruler (words ''new york city'') [(0, 2, ''A'')] (1, 3, ''B'') ''B''
        = Inr [(0, 2, ''A'')]" by blast
  from labeling_without_budget [OF b, of "[]" _ "words ''new york city''"] ok e
  have n: "\<not> ents_conflict [(0, 2, ''A'')]" by blast
  from b c u ok e n show ?thesis by blast
qed

subsection \<open>The bounds of a returned match\<close>

lemma foldl_pick_mem:
  "foldl (\<lambda>best x. if P x best then x else best) b xs \<in> set (b # xs)"
proof (induction xs arbitrary: b)
  case Nil
  show ?case by simp
next
  case (Cons x xs)
  show ?case using Cons.IH [of "if P x b then x else b"] by auto
qed

lemma index_max_mem:
  assumes "index_max tbl = Inr i"
  shows "i \<in> fst ` set tbl"
proof (cases tbl)
  case Nil
  with assms show ?thesis by simp
next
  case (Cons kv kvs)
  have "foldl (\<lambda>best x. if snd x > snd best then x else best) kv kvs \<in> set (kv # kvs)"
    by (rule foldl_pick_mem)
  with assms Cons show ?thesis by auto
qed

lemma indice_maxes_subset: "set (indice_maxes tbl n) \<subseteq> fst ` set tbl"
proof -
  have "set (take (nat n) (sort_key (\<lambda>kv. - snd kv) tbl)) \<subseteq> set tbl"
    using set_take_subset [of "nat n" "sort_key (\<lambda>kv. - snd kv) tbl"] by simp
  then show ?thesis unfolding indice_maxes_def by auto
qed

lemma scan_table_key_facts:
  assumes "i \<in> fst ` set (scan_table fuzzy_alg d query min_ratio case_sensitive 1)"
  shows "0 \<le> i \<and> i + int (length query) \<le> int (length d)
       \<and> map_of (scan_table fuzzy_alg d query min_ratio case_sensitive 1) i =
           Some (window_score fuzzy_alg case_sensitive d query i (i + int (length query)))"
proof -
  from assms obtain sc where "(i, sc) \<in> set (scan_table fuzzy_alg d query min_ratio case_sensitive 1)"
    by auto
  from scan_table_keys [OF this] obtain k where
    k: "k < scan_count (length d) (length query) 1 0" "i = int k" "min_ratio \<le> sc"
       "sc = window_score fuzzy_alg case_sensitive d query (int k * 1) (int k * 1 + int (length query))"
    by blast
  from k(1) scan_count_iff [of 1 k "length d" "length query" 0]
  have b: "int k + int (length query) \<le> int (length d)" by simp
  from scan_table_lookup [of fuzzy_alg d query min_ratio case_sensitive 1 k] k
  have "map_of (scan_table fuzzy_alg d query min_ratio case_sensitive 1) (int k) =
          Some (window_score fuzzy_alg case_sensitive d query (int k) (int k + int (length query)))"
    by simp
  with b k(2) show ?thesis by simp
qed

lemma doc_slice_clamp:
  assumes "int (length d) \<le> r"
  shows "doc_slice d l r = doc_slice d l (int (length d))"
  using assms by (simp add: doc_slice_def slice_bound_def Let_def)

lemma window_score_clamp:
  assumes "int (length d) \<le> r"
  shows "window_score fuzzy_alg case_sensitive d query l r =
         window_score fuzzy_alg case_sensitive d query l (int (length d))"
  unfolding window_score_def using doc_slice_clamp [OF assms] by simp

lemma flex_step_left:
  "bp_l (flex_step score p_l p_r f s) = bp_l s
   \<or> bp_l (flex_step score p_l p_r f s) = p_l - f
   \<or> bp_l (flex_step score p_l p_r f s) = p_l + f"
  by (simp add: flex_step_def Let_def)

lemma flex_step_right:
  "bp_r (flex_step score p_l p_r f s) = bp_r s
   \<or> bp_r (flex_step score p_l p_r f s) = p_r - f
   \<or> (bp_r (flex_step score p_l p_r f s) = p_r + f \<and> bmv_r s < score p_l (p_r + f))"
  by (auto simp: flex_step_def Let_def)

lemma flex_step_right_score:
  "bmv_r s \<le> bmv_r (flex_step score p_l p_r f s)"
  "score p_l (p_r + f) \<le> bmv_r (flex_step score p_l p_r f s)"
  by (auto simp: flex_step_def Let_def)

lemma flex_fold_bounds:
  fixes ld :: nat and base :: int and p_l p_r :: int and score :: "int \<Rightarrow> int \<Rightarrow> int"
  assumes clamp: "\<And>r. int ld \<le> r \<Longrightarrow> score p_l r = score p_l (int ld)"
    and pr: "p_r \<le> int ld"
  defines "s j \<equiv> fold (flex_step score p_l p_r) (map int [0..<j])
                    \<lparr>bp_l = p_l, bmv_l = base, bp_r = p_r, bmv_r = base\<rparr>"
  shows "(bp_l (s j) = p_l \<or> (p_l - int j < bp_l (s j) \<and> bp_l (s j) < p_l + int j))
       \<and> (bp_r (s j) = p_r \<or> (p_r - int j < bp_r (s j) \<and> bp_r (s j) < p_r + int j))
       \<and> bp_r (s j) \<le> int ld
       \<and> (\<forall>f < j. score p_l (p_r + int f) \<le> bmv_r (s j))"
proof (induction j)
  case 0
  show ?case using pr by (simp add: s_def)
next
  case (Suc j)
  have step: "s (Suc j) = flex_step score p_l p_r (int j) (s j)"
    by (simp add: s_def)
  have l: "bp_l (s (Suc j)) = p_l \<or> (p_l - int (Suc j) < bp_l (s (Suc j)) \<and> bp_l (s (Suc j)) < p_l + int (Suc j))"
    using flex_step_left [of score p_l p_r "int j" "s j"] Suc unfolding step by auto
  have r: "bp_r (s (Suc j)) = p_r
      \<or> (p_r - int (Suc j) < bp_r (s (Suc j)) \<and> bp_r (s (Suc j)) < p_r + int (Suc j))"
    using flex_step_right [of score p_l p_r "int j" "s j"] Suc unfolding step by auto
  have sc: "\<forall>f < Suc j. score p_l (p_r + int f) \<le> bmv_r (s (Suc j))"
  proof (intro allI impI)
    fix f assume "f < Suc j"
    then consider "f < j" | "f = j" by linarith
    then show "score p_l (p_r + int f) \<le> bmv_r (s (Suc j))"
    proof cases
      case 1
      with Suc have "score p_l (p_r + int f) \<le> bmv_r (s j)" by simp
      also have "\<dots> \<le> bmv_r (s (Suc j))" unfolding step by (rule flex_step_right_score)
      finally show ?thesis .
    next
      case 2
      then show ?thesis unfolding step by (simp add: flex_step_right_score)
    qed
  qed
  have b: "bp_r (s (Suc j)) \<le> int ld"
  proof -
    from flex_step_right [of score p_l p_r "int j" "s j"]
    consider "bp_r (s (Suc j)) = bp_r (s j)" | "bp_r (s (Suc j)) = p_r - int j"
      | "bp_r (s (Suc j)) = p_r + int j" "bmv_r (s j) < score p_l (p_r + int j)"
      unfolding step by blast
    then show ?thesis
    proof cases
      case 1
      with Suc show ?thesis by simp
    next
      case 2
      with pr show ?thesis by simp
    next
      case 3
      show ?thesis
      proof (rule ccontr)
        assume "\<not> bp_r (s (Suc j)) \<le> int ld"
        with 3 have over: "int ld < p_r + int j" by simp
        define f0 where "f0 = nat (int ld - p_r)"
        have f0: "f0 < j" "p_r + int f0 = int ld" using over pr by (simp_all add: f0_def)
        from Suc f0(1) have "score p_l (p_r + int f0) \<le> bmv_r (s j)" by simp
        moreover have "score p_l (p_r + int j) = score p_l (int ld)"
          using over by (intro clamp) simp
        ultimately show False using 3(2) f0(2) by simp
      qed
    qed
  qed
  from l r b sc show ?case by blast
qed

lemma flex_loop_bounds:
  fixes ld :: nat
  assumes "\<And>r. int ld \<le> r \<Longrightarrow> score p_l r = score p_l (int ld)"
    and "p_r \<le> int ld"
  shows "(bp_l (flex_loop score p_l p_r base flex) = p_l
           \<or> (p_l - flex < bp_l (flex_loop score p_l p_r base flex)
               \<and> bp_l (flex_loop score p_l p_r base flex) < p_l + flex))
       \<and> (bp_r (flex_loop score p_l p_r base flex) = p_r
           \<or> (p_r - flex < bp_r (flex_loop score p_l p_r base flex)
               \<and> bp_r (flex_loop score p_l p_r base flex) < p_r + flex))
       \<and> bp_r (flex_loop score p_l p_r base flex) \<le> int ld"
proof -
  note b = flex_fold_bounds [where ld = ld and score = score and p_l = p_l and p_r = p_r
      and base = base and j = "nat flex", OF assms]
  show ?thesis
  proof (cases "0 \<le> flex")
    case True
    then have "int (nat flex) = flex" by simp
    with b show ?thesis unfolding flex_loop_def flex_range_def by simp
  next
    case False
    then have "nat flex = 0" by simp
    then show ?thesis using assms(2) unfolding flex_loop_def flex_range_def by simp
  qed
qed

lemma adjust_bounds:
  assumes q: "query \<noteq> []" and p0: "0 \<le> pos"
    and p1: "pos + int (length query) \<le> int (length d)"
    and fl: "flex \<le> 1 \<or> 2 * flex < int (length query)"
    and tb: "map_of tbl pos = Some base"
  shows "\<exists>l r. adjust_left_right_positions eng d query tbl fuzzy_alg case_sensitive pos 1 flex
                 = Inr (l, r, window_score fuzzy_alg case_sensitive d query l r)
          \<and> l < r \<and> r \<le> int (length d) \<and> - int (length d) \<le> l
          \<and> (flex \<le> 1 \<longrightarrow> pos \<le> l \<and> r \<le> pos + int (length query))"
proof -
  define n where "n = int (length query)"
  define s where "s = flex_loop (window_score fuzzy_alg case_sensitive d query) pos (pos + n) base flex"
  have npos: "0 < n" using q by (simp add: n_def)
  have nld: "pos + n \<le> int (length d)" using p1 by (simp add: n_def)
  from flex_loop_bounds [where ld = "length d" and score = "window_score fuzzy_alg case_sensitive d query"
      and p_l = pos and p_r = "pos + n" and base = base and flex = flex,
      OF window_score_clamp nld]
  have L: "bp_l s = pos \<or> (pos - flex < bp_l s \<and> bp_l s < pos + flex)"
    and R: "bp_r s = pos + n \<or> (pos + n - flex < bp_r s \<and> bp_r s < pos + n + flex)"
    and B: "bp_r s \<le> int (length d)"
    unfolding s_def by simp_all
  have lr: "bp_l s < bp_r s" using L R fl npos unfolding n_def [symmetric] by auto
  have lo: "- int (length d) \<le> bp_l s" using L fl npos nld p0 unfolding n_def [symmetric] by auto
  have small: "flex \<le> 1 \<longrightarrow> bp_l s = pos \<and> bp_r s = pos + n" using L R by auto
  from enforce_rules_within [OF lo lr B, of eng]
  obtain l r where e: "enforce_rules eng d (bp_l s) (bp_r s) = Inr (l, r)"
    and b: "bp_l s \<le> l" "l < r" "r \<le> bp_r s" by blast
  have "adjust_left_right_positions eng d query tbl fuzzy_alg case_sensitive pos 1 flex
          = Inr (l, r, window_score fuzzy_alg case_sensitive d query l r)"
    unfolding adjust_left_right_positions_def Let_def
    using tb e by (simp add: s_def n_def)
  moreover have "l < r" "r \<le> int (length d)" "- int (length d) \<le> l"
    using b B lo by simp_all
  moreover have "flex \<le> 1 \<longrightarrow> pos \<le> l \<and> r \<le> pos + int (length query)"
    using small b unfolding n_def by auto
  ultimately show ?thesis by blast
qed

lemma calc_flex_cases:
  "calc_flex flex query \<le> 1 \<or> 2 * calc_flex flex query < int (length query)"
  by (simp add: calc_flex_def)

lemma adjust_from_table:
  assumes q: "query \<noteq> []"
    and i: "i \<in> fst ` set (scan_table fuzzy_alg d query min_ratio case_sensitive 1)"
    and a: "adjust_left_right_positions eng d query (scan_table fuzzy_alg d query min_ratio case_sensitive 1)
              fuzzy_alg case_sensitive (i * 1) 1 (calc_flex flex query) = Inr t"
  shows "fst t < fst (snd t) \<and> fst (snd t) \<le> int (length d) \<and> - int (length d) \<le> fst t
       \<and> (calc_flex flex query \<le> 1 \<longrightarrow> 0 \<le> fst t)"
proof -
  note k = scan_table_key_facts [OF i]
  from adjust_bounds [where query = query and pos = i and d = d
      and flex = "calc_flex flex query" and eng = eng and fuzzy_alg = fuzzy_alg
      and case_sensitive = case_sensitive
      and tbl = "scan_table fuzzy_alg d query min_ratio case_sensitive 1", OF q _ _ calc_flex_cases] k
  obtain l r where
    "adjust_left_right_positions eng d query (scan_table fuzzy_alg d query min_ratio case_sensitive 1)
        fuzzy_alg case_sensitive i 1 (calc_flex flex query)
       = Inr (l, r, window_score fuzzy_alg case_sensitive d query l r)"
    "l < r" "r \<le> int (length d)" "- int (length d) \<le> l"
    "calc_flex flex query \<le> 1 \<longrightarrow> i \<le> l \<and> r \<le> i + int (length query)"
    by blast
  with a k show ?thesis by auto
qed

lemma collect_mem:
  "collect xs = Inr ys \<Longrightarrow> y \<in> set ys \<Longrightarrow> Inr y \<in> set xs"
proof (induction xs arbitrary: ys)
  case Nil
  then show ?case by simp
next
  case (Cons x xs)
  then show ?case by (cases x) (auto split: sum.splits)
qed

lemma scan_doc_step1:
  "scan_doc d query fuzzy_alg min_ratio case_sensitive 1 =
     Some (scan_table fuzzy_alg d query min_ratio case_sensitive 1)"
  by (simp add: scan_doc_cases)

lemma best_match_step1:
  "best_match eng d query_str name min_ratio case_sensitive 1 flex =
     (case get_fuzzy_alg eng name case_sensitive of
        Inl e \<Rightarrow> Some (Inl e)
      | Inr fuzzy_alg \<Rightarrow>
          Some (best_match_of eng d (nlp eng query_str) fuzzy_alg min_ratio case_sensitive 1
                  (calc_flex flex (nlp eng query_str))
                  (scan_table fuzzy_alg d (nlp eng query_str) min_ratio case_sensitive 1)))"
  unfolding best_match_def Let_def scan_doc_step1 by (simp cong: sum.case_cong)

lemma best_match_of_Some:
  assumes "best_match_of eng d query fuzzy_alg min_ratio case_sensitive step flex tbl = Inr (Some m)"
  shows "\<exists>i t. index_max tbl = Inr i
      \<and> adjust_left_right_positions eng d query tbl fuzzy_alg case_sensitive (i * step) step flex = Inr t
      \<and> m = to_match d t \<and> min_ratio \<le> snd (snd t)"
proof (cases "index_max tbl")
  case (Inl e)
  with assms show ?thesis by (simp add: best_match_of_def)
next
  case (Inr i)
  show ?thesis
  proof (cases "adjust_left_right_positions eng d query tbl fuzzy_alg case_sensitive (i * step) step flex")
    case (Inl e)
    with assms Inr show ?thesis by (simp add: best_match_of_def)
  next
    case t: (Inr t)
    with assms Inr show ?thesis
      by (intro exI [of _ i] exI [of _ t]) (simp add: best_match_of_def split: if_splits)
  qed
qed

lemma multi_match_of_mem:
  assumes "multi_match_of eng d query max_results fuzzy_alg min_ratio case_sensitive step flex tbl = Inr ms"
    and "m \<in> set ms"
  shows "\<exists>i t. i \<in> set (indice_maxes tbl max_results)
      \<and> adjust_left_right_positions eng d query tbl fuzzy_alg case_sensitive (i * step) step flex = Inr t
      \<and> m = to_match d t"
proof (cases "collect (map (\<lambda>pos. adjust_left_right_positions eng d query tbl fuzzy_alg
                                 case_sensitive pos step flex)
                  (map (\<lambda>pos. pos * step) (indice_maxes tbl max_results)))")
  case (Inl e)
  with assms(1) show ?thesis by (simp add: multi_match_of_def)
next
  case (Inr ts)
  with assms(1) have ms: "ms = filter_overlapping_matches
                 (sort_key (\<lambda>m. - m_score m)
                    (map (to_match d) (filter (\<lambda>t. snd (snd t) \<ge> min_ratio) ts)))"
    by (simp add: multi_match_of_def)
  from assms(2) have "m \<in> set (sort_key (\<lambda>m. - m_score m)
                    (map (to_match d) (filter (\<lambda>t. snd (snd t) \<ge> min_ratio) ts)))"
    unfolding ms using filter_overlapping_subset by blast
  then obtain t where t: "t \<in> set ts" "m = to_match d t" by auto
  from collect_mem [OF Inr t(1)]
  have "Inr t \<in> (\<lambda>i. adjust_left_right_positions eng d query tbl fuzzy_alg case_sensitive
                          (i * step) step flex) ` set (indice_maxes tbl max_results)"
    by (simp add: image_image)
  then obtain i where
    "i \<in> set (indice_maxes tbl max_results)"
    "adjust_left_right_positions eng d query tbl fuzzy_alg case_sensitive (i * step) step flex = Inr t"
    by (auto simp del: mult_1_right)
  with t(2) show ?thesis by (intro exI [of _ i] exI [of _ t]) simp
qed

lemma match_bounds_step1:
  assumes q: "nlp eng query_str \<noteq> []"
    and i: "i \<in> fst ` set (scan_table fuzzy_alg d (nlp eng query_str) min_ratio case_sensitive 1)"
    and a: "adjust_left_right_positions eng d (nlp eng query_str)
              (scan_table fuzzy_alg d (nlp eng query_str) min_ratio case_sensitive 1)
              fuzzy_alg case_sensitive (i * 1) 1 (calc_flex flex (nlp eng query_str)) = Inr t"
  shows "m_start (to_match d t) < m_end (to_match d t)
       \<and> m_end (to_match d t) \<le> int (length d)
       \<and> (calc_flex flex (nlp eng query_str) \<le> 1 \<longrightarrow> 0 \<le> m_start (to_match d t))"
  using adjust_from_table [OF q i a] unfolding m_bounds_to_match by blast

lemma enforce_left_loop_partial:
  assumes "b_l < b_r" "enforce_left_loop funcs d b_l b_r = Inr l"
  shows "b_l \<le> l \<and> l < b_r"
  using assms
proof (induction funcs d b_l b_r rule: enforce_left_loop.induct)
  case (1 funcs d b_l b_r)
  show ?case
  proof (cases "funcs \<noteq> [] \<and> valid_index d b_l \<and> any_ignore funcs (d ! position d b_l)
                 \<and> b_l \<noteq> b_r - 1")
    case True
    with "1.prems"(2) have "enforce_left_loop funcs d (b_l + 1) b_r = Inr l"
      by (subst (asm) enforce_left_loop.simps) simp
    moreover have "b_l + 1 < b_r" using True "1.prems"(1) by simp
    ultimately have "b_l + 1 \<le> l \<and> l < b_r" using "1.IH" True by simp
    then show ?thesis by simp
  next
    case False
    with "1.prems" show ?thesis
      by (subst (asm) enforce_left_loop.simps) (auto split: if_splits)
  qed
qed

lemma enforce_right_loop_partial:
  assumes "b_l \<le> b_r" "enforce_right_loop funcs d b_l b_r = Inr r"
  shows "b_l \<le> r \<and> r \<le> b_r \<and> (funcs \<noteq> [] \<longrightarrow> valid_index d r)"
  using assms
proof (induction funcs d b_l b_r rule: enforce_right_loop.induct)
  case (1 funcs d b_l b_r)
  show ?case
  proof (cases "funcs \<noteq> [] \<and> valid_index d b_r \<and> any_ignore funcs (d ! position d b_r)
                 \<and> b_r \<noteq> b_l")
    case True
    with "1.prems"(2) have "enforce_right_loop funcs d b_l (b_r - 1) = Inr r"
      by (subst (asm) enforce_right_loop.simps) simp
    moreover have "b_l \<le> b_r - 1" using True "1.prems"(1) by simp
    ultimately have "b_l \<le> r \<and> r \<le> b_r - 1 \<and> (funcs \<noteq> [] \<longrightarrow> valid_index d r)"
      using "1.IH" True by simp
    then show ?thesis by simp
  next
    case False
    with "1.prems" show ?thesis
      by (subst (asm) enforce_right_loop.simps) (auto split: if_splits)
  qed
qed

lemma ignore_funcs_none: "ignore_funcs [] [] = []"
  by (simp add: ignore_funcs_def global_ignore_keys_def)

lemma enforce_rules_partial:
  assumes "b_l < b_r" "enforce_rules eng d b_l b_r = Inr (l, r)"
  shows "b_l \<le> l \<and> l < r \<and> r \<le> b_r
       \<and> (ignore_funcs (ignores eng) (right_ignores eng) \<noteq> [] \<longrightarrow> r \<le> int (length d))"
proof -
  from assms(2) obtain l' where el: "enforce_left eng d b_l b_r = Inr l'"
    by (auto simp: enforce_rules_def split: sum.splits)
  have l': "b_l \<le> l' \<and> l' < b_r"
  proof (cases "ignores eng \<noteq> [] \<or> left_ignores eng \<noteq> []")
    case True
    with el have "enforce_left_loop (ignore_funcs (ignores eng) (left_ignores eng)) d b_l b_r = Inr l'"
      by (simp add: enforce_left_def)
    from enforce_left_loop_partial [OF assms(1) this] show ?thesis .
  next
    case False
    with el assms(1) show ?thesis by (simp add: enforce_left_def)
  qed
  from assms(2) el l' have er: "enforce_right eng d l' b_r = Inr r" and ll: "l = l'"
    by (auto simp: enforce_rules_def split: sum.splits)
  have r: "l' < r \<and> r \<le> b_r
       \<and> (ignore_funcs (ignores eng) (right_ignores eng) \<noteq> [] \<longrightarrow> r \<le> int (length d))"
  proof (cases "ignores eng \<noteq> [] \<or> right_ignores eng \<noteq> []")
    case True
    with er obtain r0 where
      r0: "enforce_right_loop (ignore_funcs (ignores eng) (right_ignores eng)) d l' (b_r - 1) = Inr r0"
      and rr: "r = r0 + 1"
      by (auto simp: enforce_right_def split: sum.splits)
    have "l' \<le> b_r - 1" using l' by simp
    from enforce_right_loop_partial [OF this r0] rr show ?thesis
      by (auto simp: valid_index_def)
  next
    case False
    with er l' show ?thesis by (simp add: enforce_right_def ignore_funcs_none)
  qed
  from l' r ll show ?thesis by simp
qed

lemma flex_step_right_side:
  "bp_r (flex_step score p_l p_r f s) = bp_r s
   \<or> bp_r (flex_step score p_l p_r f s) = p_r - f
   \<or> bp_r (flex_step score p_l p_r f s) = p_r + f"
  using flex_step_right [of score p_l p_r f s] by blast

lemma flex_fold_sides:
  fixes base :: int and p_l p_r :: int and score :: "int \<Rightarrow> int \<Rightarrow> int"
  defines "s j \<equiv> fold (flex_step score p_l p_r) (map int [0..<j])
                    \<lparr>bp_l = p_l, bmv_l = base, bp_r = p_r, bmv_r = base\<rparr>"
  shows "(bp_l (s j) = p_l \<or> (p_l - int j < bp_l (s j) \<and> bp_l (s j) < p_l + int j))
       \<and> (bp_r (s j) = p_r \<or> (p_r - int j < bp_r (s j) \<and> bp_r (s j) < p_r + int j))"
proof (induction j)
  case 0
  show ?case by (simp add: s_def)
next
  case (Suc j)
  have step: "s (Suc j) = flex_step score p_l p_r (int j) (s j)"
    by (simp add: s_def)
  have l: "bp_l (s (Suc j)) = p_l \<or> (p_l - int (Suc j) < bp_l (s (Suc j)) \<and> bp_l (s (Suc j)) < p_l + int (Suc j))"
    using flex_step_left [of score p_l p_r "int j" "s j"] Suc unfolding step by auto
  have r: "bp_r (s (Suc j)) = p_r
      \<or> (p_r - int (Suc j) < bp_r (s (Suc j)) \<and> bp_r (s (Suc j)) < p_r + int (Suc j))"
    using flex_step_right_side [of score p_l p_r "int j" "s j"] Suc unfolding step by auto
  from l r show ?case by blast
qed

lemma flex_loop_sides:
  "(bp_l (flex_loop score p_l p_r base flex) = p_l
      \<or> (p_l - flex < bp_l (flex_loop score p_l p_r base flex)
          \<and> bp_l (flex_loop score p_l p_r base flex) < p_l + flex))
   \<and> (bp_r (flex_loop score p_l p_r base flex) = p_r
      \<or> (p_r - flex < bp_r (flex_loop score p_l p_r base flex)
          \<and> bp_r (flex_loop score p_l p_r base flex) < p_r + flex))"
proof -
  note b = flex_fold_sides [where score = score and p_l = p_l and p_r = p_r
      and base = base and j = "nat flex"]
  show ?thesis
  proof (cases "0 \<le> flex")
    case True
    then have "int (nat flex) = flex" by simp
    with b show ?thesis unfolding flex_loop_def flex_range_def by simp
  next
    case False
    then have "nat flex = 0" by simp
    then show ?thesis unfolding flex_loop_def flex_range_def by simp
  qed
qed

lemma adjust_any_step:
  assumes q: "query \<noteq> []"
    and fl: "flex \<le> 1 \<or> 2 * flex < int (length query)"
    and a: "adjust_left_right_positions eng d query tbl fuzzy_alg case_sensitive pos step flex = Inr t"
  shows "fst t < fst (snd t) \<and> (flex \<le> 1 \<longrightarrow> pos \<le> fst t)
       \<and> (ignore_funcs (ignores eng) (right_ignores eng) \<noteq> [] \<longrightarrow> fst (snd t) \<le> int (length d))"
proof -
  define n where "n = int (length query)"
  have npos: "0 < n" using q by (simp add: n_def)
  from a obtain base where st: "step \<noteq> 0" and tb: "map_of tbl (pos div step) = Some base"
    by (auto simp: adjust_left_right_positions_def Let_def split: if_splits option.splits)
  define s where "s = flex_loop (window_score fuzzy_alg case_sensitive d query) pos (pos + n) base flex"
  from a st tb obtain l r where e: "enforce_rules eng d (bp_l s) (bp_r s) = Inr (l, r)"
    and t: "t = (l, r, window_score fuzzy_alg case_sensitive d query l r)"
    by (auto simp: adjust_left_right_positions_def Let_def s_def n_def split: sum.splits)
  from flex_loop_sides [of "window_score fuzzy_alg case_sensitive d query" pos "pos + n" base flex]
  have L: "bp_l s = pos \<or> (pos - flex < bp_l s \<and> bp_l s < pos + flex)"
    and R: "bp_r s = pos + n \<or> (pos + n - flex < bp_r s \<and> bp_r s < pos + n + flex)"
    unfolding s_def by simp_all
  have lr: "bp_l s < bp_r s" using L R fl npos unfolding n_def [symmetric] by auto
  have small: "flex \<le> 1 \<longrightarrow> bp_l s = pos" using L by auto
  from enforce_rules_partial [OF lr e] small show ?thesis unfolding t by auto
qed

lemma scan_keys_nonneg:
  assumes "scan_doc d query fuzzy_alg min_ratio case_sensitive step = Some tbl"
    and "i \<in> fst ` set tbl"
  shows "0 \<le> i * step"
proof -
  from assms(1) have c: "\<not> (step \<le> 0 \<and> int (length query) - step \<le> int (length d) - 1)"
    and tbl: "tbl = scan_table fuzzy_alg d query min_ratio case_sensitive step"
    by (simp_all add: scan_doc_cases split: if_splits)
  from assms(2) obtain sc where "(i, sc) \<in> set (scan_table fuzzy_alg d query min_ratio case_sensitive step)"
    unfolding tbl by auto
  from scan_table_keys [OF this] obtain k where
    k: "k < scan_count (length d) (length query) step 0" "i = int k" by blast
  have "0 < step"
  proof (rule ccontr)
    assume "\<not> 0 < step"
    with c have "scan_count (length d) (length query) step 0 = 0" by (simp add: scan_count_def)
    with k(1) show False by simp
  qed
  with k(2) show ?thesis by simp
qed

lemma best_match_unfold_any:
  assumes "best_match eng d query_str name min_ratio case_sensitive step flex = Some (Inr (Some m))"
  shows "\<exists>fuzzy_alg tbl i t.
           scan_doc d (nlp eng query_str) fuzzy_alg min_ratio case_sensitive step = Some tbl
         \<and> i \<in> fst ` set tbl
         \<and> adjust_left_right_positions eng d (nlp eng query_str) tbl fuzzy_alg case_sensitive
              (i * step) step (calc_flex flex (nlp eng query_str)) = Inr t
         \<and> m = to_match d t"
proof (cases "get_fuzzy_alg eng name case_sensitive")
  case (Inl e)
  with assms show ?thesis by (simp add: best_match_def)
next
  case (Inr fuzzy_alg)
  with assms obtain tbl where
    s: "scan_doc d (nlp eng query_str) fuzzy_alg min_ratio case_sensitive step = Some tbl"
    and b: "best_match_of eng d (nlp eng query_str) fuzzy_alg min_ratio case_sensitive step
          (calc_flex flex (nlp eng query_str)) tbl = Inr (Some m)"
    by (auto simp: best_match_def Let_def)
  from best_match_of_Some [OF b] obtain i t where
    "index_max tbl = Inr i"
    "adjust_left_right_positions eng d (nlp eng query_str) tbl fuzzy_alg case_sensitive
       (i * step) step (calc_flex flex (nlp eng query_str)) = Inr t"
    "m = to_match d t" by blast
  with index_max_mem [of tbl i] s
  show ?thesis by (intro exI [of _ fuzzy_alg] exI [of _ tbl] exI [of _ i] exI [of _ t]) simp
qed

lemma multi_match_mem_unfold_any:
  assumes "multi_match eng d query_str max_results name min_ratio case_sensitive step flex = Some (Inr ms)"
    and "m \<in> set ms"
  shows "\<exists>fuzzy_alg tbl i t.
           scan_doc d (nlp eng query_str) fuzzy_alg min_ratio case_sensitive step = Some tbl
         \<and> i \<in> fst ` set tbl
         \<and> adjust_left_right_positions eng d (nlp eng query_str) tbl fuzzy_alg case_sensitive
              (i * step) step (calc_flex flex (nlp eng query_str)) = Inr t
         \<and> m = to_match d t"
proof -
  from multi_match_unfold [OF assms(1)] obtain fuzzy_alg tbl where
    s: "scan_doc d (nlp eng query_str) fuzzy_alg min_ratio case_sensitive step = Some tbl"
    and r: "multi_match_of eng d (nlp eng query_str) max_results fuzzy_alg min_ratio case_sensitive
              step (calc_flex flex (nlp eng query_str)) tbl = Inr ms" by blast
  from multi_match_of_mem [OF r assms(2)] obtain i t where
    im: "i \<in> set (indice_maxes tbl max_results)"
    "adjust_left_right_positions eng d (nlp eng query_str) tbl fuzzy_alg case_sensitive
       (i * step) step (calc_flex flex (nlp eng query_str)) = Inr t"
    "m = to_match d t" by blast
  from im(1) indice_maxes_subset have "i \<in> fst ` set tbl" by (rule subsetD [rotated])
  with s im(2,3)
  show ?thesis by (intro exI [of _ fuzzy_alg] exI [of _ tbl] exI [of _ i] exI [of _ t]) simp
qed

lemma match_bounds_any_step:
  assumes q: "nlp eng query_str \<noteq> []"
    and s: "scan_doc d (nlp eng query_str) fuzzy_alg min_ratio case_sensitive step = Some tbl"
    and i: "i \<in> fst ` set tbl"
    and a: "adjust_left_right_positions eng d (nlp eng query_str) tbl fuzzy_alg case_sensitive
              (i * step) step (calc_flex flex (nlp eng query_str)) = Inr t"
  shows "m_start (to_match d t) < m_end (to_match d t)
       \<and> (flex \<le> 1 \<or> int (length (nlp eng query_str)) \<le> 2 * flex \<longrightarrow> 0 \<le> m_start (to_match d t))
       \<and> (step = 1 \<or> ignore_funcs (ignores eng) (right_ignores eng) \<noteq> [] \<longrightarrow>
            m_end (to_match d t) \<le> int (length d))"
proof -
  have fl: "flex \<le> 1 \<or> int (length (nlp eng query_str)) \<le> 2 * flex \<Longrightarrow>
            calc_flex flex (nlp eng query_str) \<le> 1"
    by (auto simp: calc_flex_def)
  note g = adjust_any_step [OF q calc_flex_cases a]
  note p = scan_keys_nonneg [OF s i]
  have one: "m_end (to_match d t) \<le> int (length d)" if "step = 1"
  proof -
    from s that have tbl: "tbl = scan_table fuzzy_alg d (nlp eng query_str) min_ratio case_sensitive 1"
      by (simp add: scan_doc_step1)
    from match_bounds_step1 [OF q i [unfolded tbl] a [unfolded tbl that]]
    show ?thesis by simp
  qed
  from g p fl one show ?thesis unfolding m_bounds_to_match by force
qed

text \<open>
  Claim C3 says that every returned match has \<open>0 \<le> start < end \<le> len(doc)\<close>, for all
  parameters. It holds in part. For a non-empty query and every step and flex, every
  match of \<open>best_match\<close> and \<open>multi_match\<close> has \<open>start < end\<close>. It has \<open>0 \<le> start\<close>
  when the flex in effect after \<open>_calc_flex\<close> is at most 1, that is when \<open>flex \<le> 1\<close> or
  \<open>flex \<ge> len(query) / 2\<close>. It has \<open>end \<le> len(doc)\<close> when \<open>step = 1\<close>, and for every
  step when an ignore function is in force at the right edge, as with the default
  rules: the trimming then reads the last token of the span and raises on an index past
  the end.
\<close>

theorem match_bounds:
  assumes "nlp eng query_str \<noteq> []"
  shows "(\<forall>m. best_match eng d query_str name min_ratio case_sensitive step flex = Some (Inr (Some m)) \<longrightarrow>
            m_start m < m_end m
            \<and> (flex \<le> 1 \<or> int (length (nlp eng query_str)) \<le> 2 * flex \<longrightarrow> 0 \<le> m_start m)
            \<and> (step = 1 \<or> ignore_funcs (ignores eng) (right_ignores eng) \<noteq> [] \<longrightarrow>
                 m_end m \<le> int (length d)))
       \<and> (\<forall>ms m. multi_match eng d query_str max_results name min_ratio case_sensitive step flex
                    = Some (Inr ms) \<longrightarrow> m \<in> set ms \<longrightarrow>
            m_start m < m_end m
            \<and> (flex \<le> 1 \<or> int (length (nlp eng query_str)) \<le> 2 * flex \<longrightarrow> 0 \<le> m_start m)
            \<and> (step = 1 \<or> ignore_funcs (ignores eng) (right_ignores eng) \<noteq> [] \<longrightarrow>
                 m_end m \<le> int (length d)))"
proof (intro conjI allI impI)
  fix m
  assume "best_match eng d query_str name min_ratio case_sensitive step flex = Some (Inr (Some m))"
  from best_match_unfold_any [OF this] obtain fuzzy_alg tbl i t where
    u: "scan_doc d (nlp eng query_str) fuzzy_alg min_ratio case_sensitive step = Some tbl"
       "i \<in> fst ` set tbl"
       "adjust_left_right_positions eng d (nlp eng query_str) tbl fuzzy_alg case_sensitive
              (i * step) step (calc_flex flex (nlp eng query_str)) = Inr t"
    and m: "m = to_match d t" by blast
  note b = match_bounds_any_step [OF assms u, folded m]
  from b show "m_start m < m_end m" by blast
  from b show "0 \<le> m_start m" if "flex \<le> 1 \<or> int (length (nlp eng query_str)) \<le> 2 * flex"
    using that by blast
  from b show "m_end m \<le> int (length d)"
    if "step = 1 \<or> ignore_funcs (ignores eng) (right_ignores eng) \<noteq> []"
    using that by blast
next
  fix ms m
  assume "multi_match eng d query_str max_results name min_ratio case_sensitive step flex = Some (Inr ms)"
    and "m \<in> set ms"
  from multi_match_mem_unfold_any [OF this] obtain fuzzy_alg tbl i t where
    u: "scan_doc d (nlp eng query_str) fuzzy_alg min_ratio case_sensitive step = Some tbl"
       "i \<in> fst ` set tbl"
       "adjust_left_right_positions eng d (nlp eng query_str) tbl fuzzy_alg case_sensitive
              (i * step) step (calc_flex flex (nlp eng query_str)) = Inr t"
    and m: "m = to_match d t" by blast
  note b = match_bounds_any_step [OF assms u, folded m]
  from b show "m_start m < m_end m" by blast
  from b show "0 \<le> m_start m" if "flex \<le> 1 \<or> int (length (nlp eng query_str)) \<le> 2 * flex"
    using that by blast
  from b show "m_end m \<le> int (length d)"
    if "step = 1 \<or> ignore_funcs (ignores eng) (right_ignores eng) \<noteq> []"
    using that by blast
qed

theorem match_bounds_witness:
  "nlp demo_engine ''c d'' \<noteq> []
   \<and> best_match demo_engine (words ''a b c d e'') ''c d'' ''simple'' 50 False 2 1
       = Some (Inr (Some (doc_slice (words ''a b c d e'') 2 4, 2, 4, 100)))
   \<and> ignore_funcs (ignores demo_engine) (right_ignores demo_engine) \<noteq> []
   \<and> m_start (doc_slice (words ''a b c d e'') 2 4, 2, 4, 100)
       < m_end (doc_slice (words ''a b c d e'') 2 4, 2, 4, 100)
   \<and> 0 \<le> m_start (doc_slice (words ''a b c d e'') 2 4, 2, 4, 100)
   \<and> m_end (doc_slice (words ''a b c d e'') 2 4, 2, 4, 100)
       \<le> int (length (words ''a b c d e''))"
proof -
  have q: "nlp demo_engine ''c d'' \<noteq> []" by code_simp
  have e: "best_match demo_engine (words ''a b c d e'') ''c d'' ''simple'' 50 False 2 1
       = Some (Inr (Some (doc_slice (words ''a b c d e'') 2 4, 2, 4, 100)))"
    by code_simp
  have r: "ignore_funcs (ignores demo_engine) (right_ignores demo_engine) \<noteq> []" by code_simp
  from match_bounds [OF q, where d = "words ''a b c d e''" and name = "''simple''"
      and min_ratio = 50 and case_sensitive = False and step = 2 and flex = 1] e q r
  show ?thesis by auto
qed

text \<open>
  Claim C3 as stated fails. With \<open>flex = 2\<close> the left candidate \<open>p_l - 1 = -1\<close> is read
  as the slice \<open>doc[-1:5]\<close>, scores higher than the window, and is returned as the start.
  With \<open>step = 2\<close> the scan accepts the window \<open>doc[2:4]\<close> of a document of three tokens,
  and an engine without ignore rules returns it with \<open>end = 4\<close>.
\<close>

theorem match_bounds_counterexample:
  "best_match demo_engine (words ''x y z w hello'') ''hello b c d e'' ''simple'' 30 False 1 2
     = Some (Inr (Some (doc_slice (words ''x y z w hello'') (- 1) 5, - 1, 5, 56)))
   \<and> \<not> 0 \<le> m_start (doc_slice (words ''x y z w hello'') (- 1) 5, - 1, 5, 56)
   \<and> best_match (demo_engine\<lparr>ignores := []\<rparr>) (words ''x y quick'') ''quick fox'' ''simple'' 70 False 2 1
     = Some (Inr (Some (doc_slice (words ''x y quick'') 2 4, 2, 4, 71)))
   \<and> \<not> m_end (doc_slice (words ''x y quick'') 2 4, 2, 4, 71) \<le> int (length (words ''x y quick''))"
proof -
  have a: "best_match demo_engine (words ''x y z w hello'') ''hello b c d e'' ''simple'' 30 False 1 2
     = Some (Inr (Some (doc_slice (words ''x y z w hello'') (- 1) 5, - 1, 5, 56)))"
    by code_simp
  have b: "best_match (demo_engine\<lparr>ignores := []\<rparr>) (words ''x y quick'') ''quick fox'' ''simple'' 70 False 2 1
     = Some (Inr (Some (doc_slice (words ''x y quick'') 2 4, 2, 4, 71)))"
    by code_simp
  have c: "\<not> 0 \<le> m_start (doc_slice (words ''x y z w hello'') (- 1) 5, - 1, 5, 56)"
    by (simp add: m_start_def)
  have d: "\<not> m_end (doc_slice (words ''x y quick'') 2 4, 2, 4, 71) \<le> int (length (words ''x y quick''))"
    by code_simp
  from a b c d show ?thesis by blast
qed

subsection \<open>A query that occurs verbatim\<close>

lemma foldl_pick_keep:
  "\<forall>y \<in> set ys. snd y \<le> snd b \<Longrightarrow>
   foldl (\<lambda>best x. if snd x > snd best then x else best) b ys = (b :: int \<times> int)"
  by (induction ys) auto

lemma foldl_pick_first:
  fixes b :: "int \<times> int"
  assumes "\<forall>x \<in> set (b # xs). snd x < v" "\<forall>y \<in> set ys. snd y \<le> v"
  shows "foldl (\<lambda>best x. if snd x > snd best then x else best) b (xs @ (i, v) # ys) = (i, v)"
proof -
  define b' where "b' = foldl (\<lambda>best x. if snd x > snd best then x else best) b xs"
  have "b' \<in> set (b # xs)" unfolding b'_def by (rule foldl_pick_mem)
  with assms(1) have "snd b' < v" by blast
  then have "foldl (\<lambda>best x. if snd x > snd best then x else best) b (xs @ (i, v) # ys)
      = foldl (\<lambda>best x. if snd x > snd best then x else best) (i, v) ys"
    by (simp add: b'_def [symmetric])
  also have "\<dots> = (i, v)" using assms(2) by (intro foldl_pick_keep) simp
  finally show ?thesis .
qed

lemma index_max_first:
  assumes "\<forall>x \<in> set xs. snd x < v" "\<forall>y \<in> set ys. snd y \<le> v"
  shows "index_max (xs @ (i, v) # ys) = Inr i"
proof (cases xs)
  case Nil
  then show ?thesis using assms(2) by (simp add: foldl_pick_keep)
next
  case (Cons x xs')
  with assms(1) have "\<forall>z \<in> set (x # xs'). snd z < v" by simp
  from foldl_pick_first [OF this assms(2)] Cons show ?thesis by simp
qed

lemma flex_loop_one:
  "bp_l (flex_loop score p_l p_r base 1) = p_l \<and> bp_r (flex_loop score p_l p_r base 1) = p_r"
  by (simp add: flex_loop_def flex_range_def flex_step_def Let_def)

lemma enforce_rules_clean_edges:
  assumes "0 \<le> b_l" "b_l < b_r" "b_r \<le> int (length d)"
    and "\<not> any_ignore (ignore_funcs (ignores eng) (left_ignores eng)) (d ! nat b_l)"
    and "\<not> any_ignore (ignore_funcs (ignores eng) (right_ignores eng)) (d ! nat (b_r - 1))"
  shows "enforce_rules eng d b_l b_r = Inr (b_l, b_r)"
proof -
  have vl: "valid_index d b_l" "position d b_l = nat b_l"
    using assms(1-3) by (simp_all add: valid_index_def position_def)
  have vr: "valid_index d (b_r - 1)" "position d (b_r - 1) = nat (b_r - 1)"
    using assms(1-3) by (simp_all add: valid_index_def position_def)
  have l: "enforce_left eng d b_l b_r = Inr b_l"
    unfolding enforce_left_def
    by (subst enforce_left_loop.simps) (simp add: vl assms(4))
  have r: "enforce_right eng d b_l b_r = Inr b_r"
    unfolding enforce_right_def
    by (subst enforce_right_loop.simps) (simp add: vr assms(5))
  show ?thesis unfolding enforce_rules_def using l r assms(2) by simp
qed

lemma scan_table_split:
  assumes "k < scan_count (length d) (length query) step 0"
    and "min_ratio \<le> window_score fuzzy_alg case_sensitive d query (int k * step)
                        (int k * step + int (length query))"
  shows "\<exists>xs ys.
      scan_table fuzzy_alg d query min_ratio case_sensitive step =
        xs @ (int k, window_score fuzzy_alg case_sensitive d query (int k * step)
                        (int k * step + int (length query))) # ys
    \<and> (\<forall>x \<in> set xs. \<exists>j < k. snd x = window_score fuzzy_alg case_sensitive d query (int j * step)
                        (int j * step + int (length query)))
    \<and> (\<forall>y \<in> set ys. \<exists>j < scan_count (length d) (length query) step 0.
             snd y = window_score fuzzy_alg case_sensitive d query (int j * step)
                        (int j * step + int (length query)))"
proof -
  define N where "N = scan_count (length d) (length query) step 0"
  define g where "g = (\<lambda>j. (0 + int j, window_score fuzzy_alg case_sensitive d query (0 + int j * step)
                        (0 + int j * step + int (length query))))"
  define P where "P = (\<lambda>kv :: int \<times> int. snd kv \<ge> min_ratio)"
  have kN: "k < N" using assms(1) by (simp add: N_def)
  have tbl: "scan_table fuzzy_alg d query min_ratio case_sensitive step = filter P (map g [0..<N])"
    by (simp add: scan_table_def scan_windows_def N_def g_def P_def)
  have "[0..<N] = [0..<k] @ [k..<N]"
    using kN upt_add_eq_append [of 0 k "N - k"] by simp
  moreover have "[k..<N] = k # [Suc k..<N]"
    using kN by (rule upt_conv_Cons)
  ultimately have "[0..<N] = [0..<k] @ k # [Suc k..<N]" by simp
  moreover have "P (g k)" using assms(2) by (simp add: P_def g_def)
  ultimately have split: "filter P (map g [0..<N]) =
      filter P (map g [0..<k]) @ g k # filter P (map g [Suc k..<N])" by simp
  have "\<forall>x \<in> set (filter P (map g [0..<k])). \<exists>j < k. snd x = snd (g j)"
  proof
    fix x assume "x \<in> set (filter P (map g [0..<k]))"
    then obtain j where "j < k" "x = g j" by auto
    then show "\<exists>j < k. snd x = snd (g j)" by blast
  qed
  moreover have "\<forall>y \<in> set (filter P (map g [Suc k..<N])). \<exists>j < N. snd y = snd (g j)"
  proof
    fix y assume "y \<in> set (filter P (map g [Suc k..<N]))"
    then obtain j where "j < N" "y = g j" by auto
    then show "\<exists>j < N. snd y = snd (g j)" by blast
  qed
  ultimately show ?thesis
    unfolding tbl split N_def [symmetric]
    by (intro exI [of _ "filter P (map g [0..<k])"] exI [of _ "filter P (map g [Suc k..<N])"])
       (simp add: g_def)
qed

lemma get_fuzzy_alg_simple:
  "get_fuzzy_alg eng ''simple'' case_sensitive = Inr (ratio (fuzz_lib eng))"
  by (simp add: get_fuzzy_alg_def fuzzy_algs_def)

lemma match_equal_texts:
  assumes "\<And>a. fuzzy_alg a a = 100"
  shows "match a a fuzzy_alg case_sensitive = 100"
  using assms by (simp add: match_def)

lemma enforce_rules_single_token:
  assumes "0 \<le> b_l" "b_l + 1 \<le> int (length d)"
  shows "enforce_rules eng d b_l (b_l + 1) = Inr (b_l, b_l + 1)"
proof -
  from enforce_rules_within [of d b_l "b_l + 1" eng] assms
  obtain l r where "enforce_rules eng d b_l (b_l + 1) = Inr (l, r)"
    "b_l \<le> l" "l < r" "r \<le> b_l + 1" by auto
  then show ?thesis by simp
qed

lemma best_match_of_first_hit:
  fixes k :: nat
  assumes q: "query \<noteq> []"
    and refl: "\<And>a. fuzzy_alg a a = 100"
    and inside: "int k + int (length query) \<le> int (length d)"
    and hit: "window_score fuzzy_alg case_sensitive d query (int k) (int k + int (length query)) = 100"
    and scores: "\<forall>j < scan_count (length d) (length query) 1 0.
            window_score fuzzy_alg case_sensitive d query (int j) (int j + int (length query)) \<le> 100
          \<and> (j < k \<longrightarrow> window_score fuzzy_alg case_sensitive d query (int j)
                          (int j + int (length query)) < 100)"
    and er: "enforce_rules eng d (int k) (int k + int (length query)) = Inr (l, r)"
    and same: "span_text (doc_slice d l r) = doc_text query"
    and mr: "min_ratio \<le> 100"
  shows "best_match_of eng d query fuzzy_alg min_ratio case_sensitive 1 1
           (scan_table fuzzy_alg d query min_ratio case_sensitive 1)
         = Inr (Some (doc_slice d l r, l, r, 100))"
proof -
  let ?tbl = "scan_table fuzzy_alg d query min_ratio case_sensitive 1"
  have kN: "k < scan_count (length d) (length query) 1 0"
    using scan_count_iff [of 1 k "length d" "length query" 0] inside by simp
  have hit': "window_score fuzzy_alg case_sensitive d query (int k * 1) (int k * 1 + int (length query)) = 100"
    using hit by simp
  from scan_table_split [OF kN, of min_ratio fuzzy_alg case_sensitive] hit' mr
  obtain xs ys where
    tbl: "?tbl = xs @ (int k, 100) # ys"
    and xs: "\<forall>x \<in> set xs. \<exists>j < k. snd x = window_score fuzzy_alg case_sensitive d query (int j * 1)
                        (int j * 1 + int (length query))"
    and ys: "\<forall>y \<in> set ys. \<exists>j < scan_count (length d) (length query) 1 0.
             snd y = window_score fuzzy_alg case_sensitive d query (int j * 1)
                        (int j * 1 + int (length query))"
    by auto
  have xs': "\<forall>x \<in> set xs. snd x < 100"
  proof
    fix x assume "x \<in> set xs"
    with xs obtain j where j: "j < k" "snd x = window_score fuzzy_alg case_sensitive d query (int j)
                        (int j + int (length query))" by auto
    with kN have "j < scan_count (length d) (length query) 1 0" by simp
    with scores j show "snd x < 100" by simp
  qed
  have ys': "\<forall>y \<in> set ys. snd y \<le> 100"
  proof
    fix y assume "y \<in> set ys"
    with ys obtain j where j: "j < scan_count (length d) (length query) 1 0"
      "snd y = window_score fuzzy_alg case_sensitive d query (int j) (int j + int (length query))"
      by auto
    with scores show "snd y \<le> 100" by simp
  qed
  have im: "index_max ?tbl = Inr (int k)"
    unfolding tbl using xs' ys' by (rule index_max_first)
  have look: "map_of ?tbl (int k) = Some 100"
    using scan_table_lookup [of fuzzy_alg d query min_ratio case_sensitive 1 k] kN hit' mr by simp
  have final: "window_score fuzzy_alg case_sensitive d query l r = 100"
    unfolding window_score_def same using refl by (rule match_equal_texts)
  have adj: "adjust_left_right_positions eng d query ?tbl fuzzy_alg case_sensitive (int k * 1) 1 1
           = Inr (l, r, 100)"
    unfolding adjust_left_right_positions_def Let_def
    using look flex_loop_one [of "window_score fuzzy_alg case_sensitive d query" "int k"
        "int k + int (length query)" 100] er final
    by simp
  show ?thesis
    unfolding best_match_of_def using im adj mr by (simp add: to_match_def)
qed

text \<open>
  Claim C2 says that a query whose tokens occur verbatim in the document is returned by
  \<open>best_match\<close> (algorithm \<open>simple\<close>, \<open>min_ratio \<le> 100\<close>, defaults) with its own text
  and the score 100. It holds under two conditions the claim leaves out. Let the text of
  the window at token \<open>k\<close> be the text of the query. First, no window before it scores
  100 (the scores are compared after lower-casing, and the first best window wins).
  Second, the ignore rules leave the window whole: the query is a single token (a
  one-token span is never trimmed), or neither the first nor the last token of the
  window falls under an ignore rule of its edge. Then \<open>best_match\<close> with \<open>step = 1\<close> and
  \<open>flex = 1\<close> returns exactly that window, with the score 100, for any \<open>simple\<close>
  function that scores equal strings 100 and no scanned window above 100.

  The second conjunct is the general form: whenever window \<open>k\<close> is the first to score 100
  and the span \<open>(l, r)\<close> that \<open>_enforce_rules\<close> leaves of it has the text of the query,
  \<open>best_match\<close> returns that span with the score 100.
\<close>

theorem best_match_verbatim:
  assumes "nlp eng query_str \<noteq> []"
    and "\<And>a. ratio (fuzz_lib eng) a a = 100"
    and "int k + int (length (nlp eng query_str)) \<le> int (length d)"
    and "\<forall>j < scan_count (length d) (length (nlp eng query_str)) 1 0.
            window_score (ratio (fuzz_lib eng)) case_sensitive d (nlp eng query_str) (int j)
              (int j + int (length (nlp eng query_str))) \<le> 100
          \<and> (j < k \<longrightarrow> window_score (ratio (fuzz_lib eng)) case_sensitive d (nlp eng query_str) (int j)
              (int j + int (length (nlp eng query_str))) < 100)"
    and "min_ratio \<le> 100"
  shows "(span_text (doc_slice d (int k) (int k + int (length (nlp eng query_str))))
            = doc_text (nlp eng query_str) \<longrightarrow>
          (length (nlp eng query_str) = 1
            \<or> (\<not> any_ignore (ignore_funcs (ignores eng) (left_ignores eng)) (d ! k)
                \<and> \<not> any_ignore (ignore_funcs (ignores eng) (right_ignores eng))
                      (d ! (k + length (nlp eng query_str) - 1)))) \<longrightarrow>
          best_match eng d query_str ''simple'' min_ratio case_sensitive 1 1
            = Some (Inr (Some (doc_slice d (int k) (int k + int (length (nlp eng query_str))),
                               int k, int k + int (length (nlp eng query_str)), 100))))
       \<and> (window_score (ratio (fuzz_lib eng)) case_sensitive d (nlp eng query_str) (int k)
              (int k + int (length (nlp eng query_str))) = 100 \<longrightarrow>
          enforce_rules eng d (int k) (int k + int (length (nlp eng query_str))) = Inr (l, r) \<longrightarrow>
          span_text (doc_slice d l r) = doc_text (nlp eng query_str) \<longrightarrow>
          best_match eng d query_str ''simple'' min_ratio case_sensitive 1 1
            = Some (Inr (Some (doc_slice d l r, l, r, 100))))"
proof -
  let ?q = "nlp eng query_str"
  let ?n = "int (length ?q)"
  have general: "best_match eng d query_str ''simple'' min_ratio case_sensitive 1 1
            = Some (Inr (Some (doc_slice d l' r', l', r', 100)))"
    if hit: "window_score (ratio (fuzz_lib eng)) case_sensitive d ?q (int k) (int k + ?n) = 100"
      and er: "enforce_rules eng d (int k) (int k + ?n) = Inr (l', r')"
      and same: "span_text (doc_slice d l' r') = doc_text ?q" for l' r'
  proof -
    have "best_match_of eng d ?q (ratio (fuzz_lib eng)) min_ratio case_sensitive 1 1
           (scan_table (ratio (fuzz_lib eng)) d ?q min_ratio case_sensitive 1)
         = Inr (Some (doc_slice d l' r', l', r', 100))"
      using assms(1,2,3) hit assms(4) er same assms(5) by (rule best_match_of_first_hit)
    then show ?thesis
      by (simp add: best_match_step1 get_fuzzy_alg_simple calc_flex_def)
  qed
  have direct: "best_match eng d query_str ''simple'' min_ratio case_sensitive 1 1
            = Some (Inr (Some (doc_slice d (int k) (int k + ?n), int k, int k + ?n, 100)))"
    if same: "span_text (doc_slice d (int k) (int k + ?n)) = doc_text ?q"
      and edges: "length ?q = 1
            \<or> (\<not> any_ignore (ignore_funcs (ignores eng) (left_ignores eng)) (d ! k)
                \<and> \<not> any_ignore (ignore_funcs (ignores eng) (right_ignores eng))
                      (d ! (k + length ?q - 1)))"
  proof -
    have hit: "window_score (ratio (fuzz_lib eng)) case_sensitive d ?q (int k) (int k + ?n) = 100"
      unfolding window_score_def same using assms(2) by (rule match_equal_texts)
    have npos: "0 < ?n" using assms(1) by simp
    have er: "enforce_rules eng d (int k) (int k + ?n) = Inr (int k, int k + ?n)"
    proof (cases "length ?q = 1")
      case True
      then show ?thesis using enforce_rules_single_token [of "int k" d eng] assms(3) by simp
    next
      case False
      with edges have e: "\<not> any_ignore (ignore_funcs (ignores eng) (left_ignores eng)) (d ! k)"
        "\<not> any_ignore (ignore_funcs (ignores eng) (right_ignores eng)) (d ! (k + length ?q - 1))"
        by simp_all
      show ?thesis
      proof (rule enforce_rules_clean_edges)
        show "0 \<le> int k" by simp
        show "int k < int k + ?n" using npos by simp
        show "int k + ?n \<le> int (length d)" by (rule assms(3))
        show "\<not> any_ignore (ignore_funcs (ignores eng) (left_ignores eng)) (d ! nat (int k))"
          using e(1) by simp
        have "nat (int k + ?n - 1) = k + length ?q - 1" using npos by simp
        then show "\<not> any_ignore (ignore_funcs (ignores eng) (right_ignores eng))
                  (d ! nat (int k + ?n - 1))" using e(2) by simp
      qed
    qed
    from general [OF hit er same] show ?thesis .
  qed
  from general direct show ?thesis by blast
qed

theorem best_match_verbatim_witness:
  "nlp demo_engine ''the'' \<noteq> []
   \<and> int 0 + int (length (nlp demo_engine ''the'')) \<le> int (length (words ''the cat''))
   \<and> span_text (doc_slice (words ''the cat'') (int 0) (int 0 + int (length (nlp demo_engine ''the''))))
        = doc_text (nlp demo_engine ''the'')
   \<and> length (nlp demo_engine ''the'') = 1
   \<and> any_ignore (ignore_funcs (ignores demo_engine) (left_ignores demo_engine)) (words ''the cat'' ! 0)
   \<and> best_match demo_engine (words ''the cat'') ''the'' ''simple'' 70 False 1 1
        = Some (Inr (Some (doc_slice (words ''the cat'') (int 0)
                             (int 0 + int (length (nlp demo_engine ''the''))),
                           int 0, int 0 + int (length (nlp demo_engine ''the'')), 100)))
   \<and> best_match demo_engine (words ''The quick brown fox'') ''quick brown'' ''simple'' 70 False 1 1
        = Some (Inr (Some (doc_slice (words ''The quick brown fox'') (int 1)
                             (int 1 + int (length (nlp demo_engine ''quick brown''))),
                           int 1, int 1 + int (length (nlp demo_engine ''quick brown'')), 100)))"
proof -
  have r: "ratio (fuzz_lib demo_engine) = simple_ratio"
    by (simp add: demo_engine_def demo_fuzz_def)
  have refl: "\<And>a. ratio (fuzz_lib demo_engine) a a = 100"
    unfolding r by (simp add: simple_ratio_def)
  have q1: "nlp demo_engine ''the'' \<noteq> []" by code_simp
  have in1: "int 0 + int (length (nlp demo_engine ''the'')) \<le> int (length (words ''the cat''))"
    by code_simp
  have occ1: "span_text (doc_slice (words ''the cat'') (int 0)
                 (int 0 + int (length (nlp demo_engine ''the''))))
        = doc_text (nlp demo_engine ''the'')" by code_simp
  have one: "length (nlp demo_engine ''the'') = 1" by code_simp
  have ign: "any_ignore (ignore_funcs (ignores demo_engine) (left_ignores demo_engine))
               (words ''the cat'' ! 0)" by code_simp
  have n1: "scan_count (length (words ''the cat'')) (length (nlp demo_engine ''the'')) 1 0 = 2"
    by code_simp
  have a0: "window_score simple_ratio False (words ''the cat'') (nlp demo_engine ''the'') 0
              (0 + int (length (nlp demo_engine ''the''))) \<le> 100" by code_simp
  have a1: "window_score simple_ratio False (words ''the cat'') (nlp demo_engine ''the'') 1
              (1 + int (length (nlp demo_engine ''the''))) \<le> 100" by code_simp
  have sc1: "\<forall>j < scan_count (length (words ''the cat'')) (length (nlp demo_engine ''the'')) 1 0.
            window_score (ratio (fuzz_lib demo_engine)) False (words ''the cat'')
              (nlp demo_engine ''the'') (int j) (int j + int (length (nlp demo_engine ''the''))) \<le> 100
          \<and> (j < 0 \<longrightarrow> window_score (ratio (fuzz_lib demo_engine)) False (words ''the cat'')
              (nlp demo_engine ''the'') (int j) (int j + int (length (nlp demo_engine ''the''))) < 100)"
    unfolding n1 r using a0 a1 by (auto simp: less_Suc_eq numeral_2_eq_2)
  from best_match_verbatim [OF q1 refl in1 sc1, of 70, THEN conjunct1] occ1 one
  have res1: "best_match demo_engine (words ''the cat'') ''the'' ''simple'' 70 False 1 1
        = Some (Inr (Some (doc_slice (words ''the cat'') (int 0)
                             (int 0 + int (length (nlp demo_engine ''the''))),
                           int 0, int 0 + int (length (nlp demo_engine ''the'')), 100)))"
    by simp
  have q: "nlp demo_engine ''quick brown'' \<noteq> []" by code_simp
  have inside: "int 1 + int (length (nlp demo_engine ''quick brown''))
                  \<le> int (length (words ''The quick brown fox''))" by code_simp
  have occ: "span_text (doc_slice (words ''The quick brown fox'') (int 1)
                   (int 1 + int (length (nlp demo_engine ''quick brown''))))
        = doc_text (nlp demo_engine ''quick brown'')" by code_simp
  have n: "scan_count (length (words ''The quick brown fox''))
             (length (nlp demo_engine ''quick brown'')) 1 0 = 3" by code_simp
  have w0: "window_score simple_ratio False (words ''The quick brown fox'')
              (nlp demo_engine ''quick brown'') 0
              (0 + int (length (nlp demo_engine ''quick brown''))) < 100" by code_simp
  have w1: "window_score simple_ratio False (words ''The quick brown fox'')
              (nlp demo_engine ''quick brown'') 1
              (1 + int (length (nlp demo_engine ''quick brown''))) \<le> 100" by code_simp
  have w2: "window_score simple_ratio False (words ''The quick brown fox'')
              (nlp demo_engine ''quick brown'') 2
              (2 + int (length (nlp demo_engine ''quick brown''))) \<le> 100" by code_simp
  have sc: "\<forall>j < scan_count (length (words ''The quick brown fox''))
                   (length (nlp demo_engine ''quick brown'')) 1 0.
            window_score (ratio (fuzz_lib demo_engine)) False (words ''The quick brown fox'')
              (nlp demo_engine ''quick brown'') (int j)
              (int j + int (length (nlp demo_engine ''quick brown''))) \<le> 100
          \<and> (j < 1 \<longrightarrow> window_score (ratio (fuzz_lib demo_engine)) False (words ''The quick brown fox'')
              (nlp demo_engine ''quick brown'') (int j)
              (int j + int (length (nlp demo_engine ''quick brown''))) < 100)"
    unfolding n r using w0 w1 w2 by (auto simp: less_Suc_eq numeral_3_eq_3)
  have le: "\<not> any_ignore (ignore_funcs (ignores demo_engine) (left_ignores demo_engine))
                (words ''The quick brown fox'' ! 1)" by code_simp
  have re: "\<not> any_ignore (ignore_funcs (ignores demo_engine) (right_ignores demo_engine))
                (words ''The quick brown fox'' ! (1 + length (nlp demo_engine ''quick brown'') - 1))"
    by code_simp
  from best_match_verbatim [OF q refl inside sc, of 70, THEN conjunct1] occ le re
  have res2: "best_match demo_engine (words ''The quick brown fox'') ''quick brown'' ''simple'' 70 False 1 1
        = Some (Inr (Some (doc_slice (words ''The quick brown fox'') (int 1)
                             (int 1 + int (length (nlp demo_engine ''quick brown''))),
                           int 1, int 1 + int (length (nlp demo_engine ''quick brown'')), 100)))"
    by simp
  from q1 in1 occ1 one ign res1 res2 show ?thesis by blast
qed

text \<open>
  Claim C2 as stated fails. The query \<open>the cat\<close> occurs verbatim in \<open>the cat sat\<close>, but
  its first token is a stop word: the refined span is trimmed to \<open>cat\<close>, which scores 60,
  so the call with the default \<open>min_ratio = 70\<close> returns \<open>None\<close> and the call with
  \<open>min_ratio = 50\<close> returns the span \<open>cat\<close>. The query \<open>blue cat\<close> occurs verbatim at
  token 2 of \<open>Blue Cat blue cat\<close>, but the window at token 0 scores 100 after
  lower-casing and is returned, with the text \<open>Blue Cat\<close>.
\<close>

theorem best_match_verbatim_counterexample:
  "map tok_text (doc_slice (words ''the cat sat'') 0 2) = map tok_text (words ''the cat'')
   \<and> span_text (doc_slice (words ''the cat sat'') 0 2) = doc_text (words ''the cat'')
   \<and> best_match demo_engine (words ''the cat sat'') ''the cat'' ''simple'' 70 False 1 1
        = Some (Inr None)
   \<and> best_match demo_engine (words ''the cat sat'') ''the cat'' ''simple'' 50 False 1 1
        = Some (Inr (Some (doc_slice (words ''the cat sat'') 1 2, 1, 2, 60)))
   \<and> span_text (doc_slice (words ''the cat sat'') 1 2) = ''cat''
   \<and> map tok_text (doc_slice (words ''Blue Cat blue cat'') 2 4) = map tok_text (words ''blue cat'')
   \<and> best_match demo_engine (words ''Blue Cat blue cat'') ''blue cat'' ''simple'' 70 False 1 1
        = Some (Inr (Some (doc_slice (words ''Blue Cat blue cat'') 0 2, 0, 2, 100)))
   \<and> span_text (doc_slice (words ''Blue Cat blue cat'') 0 2) = ''Blue Cat''
   \<and> doc_text (words ''blue cat'') = ''blue cat''"
proof -
  have a: "map tok_text (doc_slice (words ''the cat sat'') 0 2) = map tok_text (words ''the cat'')"
    by code_simp
  have b: "span_text (doc_slice (words ''the cat sat'') 0 2) = doc_text (words ''the cat'')"
    by code_simp
  have c: "best_match demo_engine (words ''the cat sat'') ''the cat'' ''simple'' 70 False 1 1
        = Some (Inr None)" by code_simp
  have d: "best_match demo_engine (words ''the cat sat'') ''the cat'' ''simple'' 50 False 1 1
        = Some (Inr (Some (doc_slice (words ''the cat sat'') 1 2, 1, 2, 60)))" by code_simp
  have e: "span_text (doc_slice (words ''the cat sat'') 1 2) = ''cat''" by code_simp
  have f: "map tok_text (doc_slice (words ''Blue Cat blue cat'') 2 4) = map tok_text (words ''blue cat'')"
    by code_simp
  have g: "best_match demo_engine (words ''Blue Cat blue cat'') ''blue cat'' ''simple'' 70 False 1 1
        = Some (Inr (Some (doc_slice (words ''Blue Cat blue cat'') 0 2, 0, 2, 100)))" by code_simp
  have h: "span_text (doc_slice (words ''Blue Cat blue cat'') 0 2) = ''Blue Cat''" by code_simp
  have i: "doc_text (words ''blue cat'') = ''blue cat''" by code_simp
  from a b c d e f g h i show ?thesis by blast
qed

end
